theory Spec2Isabelle
  imports Main "HOL-Library.Word"
begin

unbundle bit_operations_syntax

section \<open>The LRU-K replacer (lru\_k\_replacer.cpp)\<close>

text \<open>
  The header \<^verbatim>\<open>buffer/lru_k_replacer.h\<close> is not part of the sources at hand, so the
  member declarations are read off their uses in the implementation file:
  \<^item> \<^verbatim>\<open>frame_id_t\<close> is a signed integer type (the range guard casts the \<^verbatim>\<open>size_t\<close>
    capacity to it); it is modelled as \<open>int\<close>, and the cast as the value of the capacity;
  \<^item> \<^verbatim>\<open>size_t\<close> is a 64-bit word, so \<^verbatim>\<open>++\<close> and \<^verbatim>\<open>--\<close> wrap around;
  \<^item> \<^verbatim>\<open>recorded_cnt_\<close>, \<^verbatim>\<open>evictable_\<close> and \<^verbatim>\<open>hist\<close> are hash maps indexed with
    \<^verbatim>\<open>operator[]\<close>, which yields a value-initialised entry (0, false, the empty list)
    for a key that was never stored: they are total functions with these defaults;
  \<^item> \<^verbatim>\<open>new_frame_\<close> is a \<^verbatim>\<open>std::list\<close> of frame ids and \<^verbatim>\<open>cache_frame_\<close> a
    \<^verbatim>\<open>std::list\<close> of pairs (frame id, timestamp);
  \<^item> \<^verbatim>\<open>new_locate_\<close> and \<^verbatim>\<open>cache_locate_\<close> map a queued frame to the iterator of its
    list node. Every statement that stores or erases a node stores or erases the
    iterator with it, so the model does not keep the two maps: the iterator of a
    frame is the node of that frame in the list, and erasing through an iterator
    that does not exist is undefined behaviour, which the model reports;
  \<^item> \<^verbatim>\<open>latch_\<close> is a \<^verbatim>\<open>std::mutex\<close>; the model records whether it is held. Locking
    a \<^verbatim>\<open>std::mutex\<close> that the caller already holds never returns (the mutex is not
    recursive): the model reports it as a deadlock.
  The members keep their names without the trailing underscore, which a record field
  cannot carry; \<^verbatim>\<open>k_\<close> is the field \<open>lru_k\<close>.
\<close>

text \<open>
  Modelled from the spec: the declaration of \<^verbatim>\<open>frame_id_t\<close> is in a header that is not
  among the sources. The specification describes frame identifiers as small integers
  bounded by the configured capacity, and the range guards compare a frame id with the
  capacity cast to \<^verbatim>\<open>frame_id_t\<close>: frame ids are integers, negative ones included since
  the guards let them pass, and the cast keeps the value of the capacity.
\<close>

type_synonym frame_id_t = int

type_synonym size_t = "64 word"

datatype 'a outcome = Returns 'a | Throws | Deadlocks | Undefined

record replacer =
  replacer_size :: size_t
  lru_k :: size_t
  max_size :: size_t
  curr_size :: size_t
  current_timestamp :: size_t
  recorded_cnt :: "frame_id_t \<Rightarrow> size_t"
  evictable :: "frame_id_t \<Rightarrow> bool"
  hist :: "frame_id_t \<Rightarrow> size_t list"
  new_frame :: "frame_id_t list"
  cache_frame :: "(frame_id_t \<times> size_t) list"
  latch :: bool

text \<open>
  The constructor sets \<^verbatim>\<open>replacer_size_\<close>, \<^verbatim>\<open>k_\<close> and \<^verbatim>\<open>max_size_\<close>.

  Modelled from the spec: the initial values of \<^verbatim>\<open>curr_size_\<close> and \<^verbatim>\<open>current_timestamp_\<close>
  are given in the header that is not among the sources. By the specification no frame
  is tracked before its first recorded access and the logical clock advances by one
  tick per access: both counters start at 0, and the maps and queues are empty.
\<close>

definition LRUKReplacer :: "size_t \<Rightarrow> size_t \<Rightarrow> replacer" where
  "LRUKReplacer num_frames k =
     \<lparr> replacer_size = num_frames, lru_k = k, max_size = num_frames, curr_size = 0,
       current_timestamp = 0, recorded_cnt = (\<lambda>_. 0), evictable = (\<lambda>_. False),
       hist = (\<lambda>_. []), new_frame = [], cache_frame = [], latch = False \<rparr>"

text \<open>
  \<^verbatim>\<open>std::lock_guard<std::mutex> lock(latch_)\<close> around a function body: the lock is taken
  on entry and released when the body returns or throws.
\<close>

definition lock_guard ::
  "(replacer \<Rightarrow> 'a outcome \<times> replacer) \<Rightarrow> replacer \<Rightarrow> 'a outcome \<times> replacer" where
  "lock_guard body r =
     (if latch r then (Deadlocks, r)
      else (case body (r\<lparr>latch := True\<rparr>) of
              (Returns x, r') \<Rightarrow> (Returns x, r'\<lparr>latch := False\<rparr>)
            | (Throws, r') \<Rightarrow> (Throws, r'\<lparr>latch := False\<rparr>)
            | (Deadlocks, r') \<Rightarrow> (Deadlocks, r')
            | (Undefined, r') \<Rightarrow> (Undefined, r')))"

definition Size :: "replacer \<Rightarrow> size_t" where
  "Size r = curr_size r"

text \<open>The body of \<^verbatim>\<open>Evict\<close> below its lock guard; \<open>None\<close> is the result \<^verbatim>\<open>false\<close>.\<close>

definition Evict_body :: "replacer \<Rightarrow> frame_id_t option outcome \<times> replacer" where
  "Evict_body r =
     (if Size r = 0 then (Returns None, r)
      else (case find (evictable r) (rev (new_frame r)) of
              Some frame \<Rightarrow>
                (Returns (Some frame),
                 r\<lparr>recorded_cnt := (recorded_cnt r)(frame := 0),
                   new_frame := removeAll frame (new_frame r),
                   curr_size := curr_size r - 1,
                   hist := (hist r)(frame := [])\<rparr>)
            | None \<Rightarrow>
                (case find (\<lambda>e. evictable r (fst e)) (cache_frame r) of
                   Some e \<Rightarrow>
                     (Returns (Some (fst e)),
                      r\<lparr>recorded_cnt := (recorded_cnt r)(fst e := 0),
                        cache_frame := remove1 e (cache_frame r),
                        curr_size := curr_size r - 1,
                        hist := (hist r)(fst e := [])\<rparr>)
                 | None \<Rightarrow> (Returns None, r))))"

definition Evict :: "replacer \<Rightarrow> frame_id_t option outcome \<times> replacer" where
  "Evict r = lock_guard Evict_body r"

text \<open>
  \<^verbatim>\<open>std::upper_bound\<close> with \<^verbatim>\<open>CmpTimestamp\<close> followed by \<^verbatim>\<open>insert\<close>: the new entry goes
  before the first entry with a larger timestamp.
\<close>

definition CmpTimestamp :: "frame_id_t \<times> size_t \<Rightarrow> frame_id_t \<times> size_t \<Rightarrow> bool" where
  "CmpTimestamp f1 f2 = (snd f1 < snd f2)"

fun upper_bound_insert ::
  "frame_id_t \<times> size_t \<Rightarrow> (frame_id_t \<times> size_t) list \<Rightarrow> (frame_id_t \<times> size_t) list" where
  "upper_bound_insert new_cache [] = [new_cache]"
| "upper_bound_insert new_cache (e # es) =
     (if CmpTimestamp new_cache e then new_cache # e # es
      else e # upper_bound_insert new_cache es)"

text \<open>Erasing the node that the stored iterator of a frame points to.\<close>

definition erase_new :: "frame_id_t \<Rightarrow> frame_id_t list \<Rightarrow> frame_id_t list option" where
  "erase_new frame_id q = (if frame_id \<in> set q then Some (remove1 frame_id q) else None)"

definition erase_cache ::
  "frame_id_t \<Rightarrow> (frame_id_t \<times> size_t) list \<Rightarrow> (frame_id_t \<times> size_t) list option" where
  "erase_cache frame_id q =
     (case find (\<lambda>e. fst e = frame_id) q of
        Some e \<Rightarrow> Some (remove1 e q)
      | None \<Rightarrow> None)"

text \<open>Lines 66 to 76 of \<^verbatim>\<open>RecordAccess\<close>: the first access of a frame.\<close>

definition first_access :: "size_t \<Rightarrow> frame_id_t \<Rightarrow> replacer \<Rightarrow> unit outcome \<times> replacer" where
  "first_access cnt frame_id r =
     (if cnt = 1 then
        (case (if curr_size r = max_size r then Evict r else (Returns None, r)) of
           (Returns _, r') \<Rightarrow>
             (Returns (),
              r'\<lparr>evictable := (evictable r')(frame_id := True),
                 curr_size := curr_size r' + 1,
                 new_frame := frame_id # new_frame r'\<rparr>)
         | (Throws, r') \<Rightarrow> (Throws, r')
         | (Deadlocks, r') \<Rightarrow> (Deadlocks, r')
         | (Undefined, r') \<Rightarrow> (Undefined, r'))
      else (Returns (), r))"

text \<open>Lines 79 to 103 of \<^verbatim>\<open>RecordAccess\<close>: the move to and within the at/above-K queue.\<close>

definition requeue :: "size_t \<Rightarrow> frame_id_t \<Rightarrow> replacer \<Rightarrow> unit outcome \<times> replacer" where
  "requeue cnt frame_id r =
     (if cnt = lru_k r then
        (case erase_new frame_id (new_frame r) of
           None \<Rightarrow> (Undefined, r)
         | Some q \<Rightarrow>
             (case hist r frame_id of
                [] \<Rightarrow> (Undefined, r)
              | kth_time # _ \<Rightarrow>
                  (Returns (),
                   r\<lparr>new_frame := q,
                     cache_frame := upper_bound_insert (frame_id, kth_time) (cache_frame r)\<rparr>)))
      else if cnt > lru_k r then
        (case hist r frame_id of
           [] \<Rightarrow> (Undefined, r)
         | _ # h \<Rightarrow>
             (case erase_cache frame_id (cache_frame r) of
                None \<Rightarrow> (Undefined, r)
              | Some q \<Rightarrow>
                  (case h of
                     [] \<Rightarrow> (Undefined, r)
                   | kth_time # _ \<Rightarrow>
                       (Returns (),
                        r\<lparr>hist := (hist r)(frame_id := h),
                          cache_frame := upper_bound_insert (frame_id, kth_time) q\<rparr>))))
      else (Returns (), r))"

definition RecordAccess_body :: "frame_id_t \<Rightarrow> replacer \<Rightarrow> unit outcome \<times> replacer" where
  "RecordAccess_body frame_id r =
     (if frame_id > uint (replacer_size r) then (Throws, r)
      else
        (let r1 = r\<lparr>current_timestamp := current_timestamp r + 1\<rparr>;
             r2 = r1\<lparr>recorded_cnt := (recorded_cnt r1)(frame_id := recorded_cnt r1 frame_id + 1)\<rparr>;
             cnt = recorded_cnt r2 frame_id;
             r3 = r2\<lparr>hist := (hist r2)(frame_id := hist r2 frame_id @ [current_timestamp r2])\<rparr>
         in (case first_access cnt frame_id r3 of
               (Returns _, r4) \<Rightarrow> requeue cnt frame_id r4
             | (Throws, r4) \<Rightarrow> (Throws, r4)
             | (Deadlocks, r4) \<Rightarrow> (Deadlocks, r4)
             | (Undefined, r4) \<Rightarrow> (Undefined, r4))))"

definition RecordAccess :: "replacer \<Rightarrow> frame_id_t \<Rightarrow> unit outcome \<times> replacer" where
  "RecordAccess r frame_id = lock_guard (RecordAccess_body frame_id) r"

definition SetEvictable_body :: "frame_id_t \<Rightarrow> bool \<Rightarrow> replacer \<Rightarrow> unit outcome \<times> replacer" where
  "SetEvictable_body frame_id set_evictable r =
     (if recorded_cnt r frame_id = 0 then (Returns (), r)
      else
        (let status = evictable r frame_id;
             r1 = r\<lparr>evictable := (evictable r)(frame_id := set_evictable)\<rparr>;
             r2 = (if status \<and> \<not> set_evictable
                   then r1\<lparr>max_size := max_size r1 - 1, curr_size := curr_size r1 - 1\<rparr>
                   else r1);
             r3 = (if \<not> status \<and> set_evictable
                   then r2\<lparr>max_size := max_size r2 + 1, curr_size := curr_size r2 + 1\<rparr>
                   else r2)
         in (Returns (), r3)))"

definition SetEvictable :: "replacer \<Rightarrow> frame_id_t \<Rightarrow> bool \<Rightarrow> unit outcome \<times> replacer" where
  "SetEvictable r frame_id set_evictable = lock_guard (SetEvictable_body frame_id set_evictable) r"

definition Remove_body :: "frame_id_t \<Rightarrow> replacer \<Rightarrow> unit outcome \<times> replacer" where
  "Remove_body frame_id r =
     (if frame_id > uint (replacer_size r) then (Throws, r)
      else
        (let cnt = recorded_cnt r frame_id in
         if cnt = 0 then (Returns (), r)
         else if \<not> evictable r frame_id then (Throws, r)
         else if cnt < lru_k r then
           (case erase_new frame_id (new_frame r) of
              None \<Rightarrow> (Undefined, r)
            | Some q \<Rightarrow>
                (Returns (),
                 r\<lparr>new_frame := q,
                   recorded_cnt := (recorded_cnt r)(frame_id := 0),
                   hist := (hist r)(frame_id := []),
                   curr_size := curr_size r - 1\<rparr>))
         else
           (case erase_cache frame_id (cache_frame r) of
              None \<Rightarrow> (Undefined, r)
            | Some q \<Rightarrow>
                (Returns (),
                 r\<lparr>cache_frame := q,
                   recorded_cnt := (recorded_cnt r)(frame_id := 0),
                   hist := (hist r)(frame_id := []),
                   curr_size := curr_size r - 1\<rparr>))))"

definition Remove :: "replacer \<Rightarrow> frame_id_t \<Rightarrow> unit outcome \<times> replacer" where
  "Remove r frame_id = lock_guard (Remove_body frame_id) r"



subsection \<open>Sequences of calls\<close>

text \<open>
  A client drives the replacer through its public operations. A call that returns or
  throws leaves a replacer to go on with; a call that deadlocks or runs into undefined
  behaviour has no successor state.
\<close>

datatype op =
    RecordAccessOp frame_id_t
  | EvictOp
  | SetEvictableOp frame_id_t bool
  | RemoveOp frame_id_t
  | SizeOp

definition completed :: "'a outcome \<times> replacer \<Rightarrow> replacer option" where
  "completed x =
     (case x of
        (Returns _, r') \<Rightarrow> Some r'
      | (Throws, r') \<Rightarrow> Some r'
      | (Deadlocks, _) \<Rightarrow> None
      | (Undefined, _) \<Rightarrow> None)"

fun step :: "replacer \<Rightarrow> op \<Rightarrow> replacer option" where
  "step r (RecordAccessOp frame_id) = completed (RecordAccess r frame_id)"
| "step r EvictOp = completed (Evict r)"
| "step r (SetEvictableOp frame_id b) = completed (SetEvictable r frame_id b)"
| "step r (RemoveOp frame_id) = completed (Remove r frame_id)"
| "step r SizeOp = Some r"

fun run :: "replacer \<Rightarrow> op list \<Rightarrow> replacer option" where
  "run r [] = Some r"
| "run r (x # xs) = (case step r x of None \<Rightarrow> None | Some r' \<Rightarrow> run r' xs)"

subsection \<open>The two queues and what the replacer keeps true\<close>

definition tracked :: "replacer \<Rightarrow> frame_id_t \<Rightarrow> bool" where
  "tracked r f = (recorded_cnt r f \<noteq> 0)"

definition in_below_K :: "replacer \<Rightarrow> frame_id_t \<Rightarrow> bool" where
  "in_below_K r f = (f \<in> set (new_frame r))"

definition in_at_above_K :: "replacer \<Rightarrow> frame_id_t \<Rightarrow> bool" where
  "in_at_above_K r f = (f \<in> fst ` set (cache_frame r))"

text \<open>
  Each frame id occurs at most once in each queue; a frame is in the below-K queue
  exactly when its count is positive and less than K, and in the at/above-K queue
  exactly when its count is positive and at least K.
\<close>

definition inv_queues :: "replacer \<Rightarrow> bool" where
  "inv_queues r =
     (distinct (new_frame r) \<and> distinct (map fst (cache_frame r)) \<and>
      (\<forall>f. in_below_K r f = (tracked r f \<and> recorded_cnt r f < lru_k r)) \<and>
      (\<forall>f. in_at_above_K r f = (tracked r f \<and> lru_k r \<le> recorded_cnt r f)))"

text \<open>No count and no recorded timestamp is ahead of the clock.\<close>

definition inv_clock :: "replacer \<Rightarrow> bool" where
  "inv_clock r =
     (\<forall>f. recorded_cnt r f \<le> current_timestamp r \<and>
          (\<forall>t \<in> set (hist r f). t \<le> current_timestamp r))"

text \<open>The history of a frame holds its last accesses, at most K of them.\<close>

definition inv_hist :: "replacer \<Rightarrow> bool" where
  "inv_hist r =
     (\<forall>f. length (hist r f) = min (unat (recorded_cnt r f)) (unat (lru_k r)))"

text \<open>
  The below-K queue runs from the frame first accessed last to the frame first
  accessed first; the at/above-K queue is ascending in its timestamps, and the
  timestamp of an entry is the front of the frame's history.
\<close>

definition inv_order :: "replacer \<Rightarrow> bool" where
  "inv_order r =
     (sorted_wrt (\<lambda>f g. hd (hist r g) < hd (hist r f)) (new_frame r) \<and>
      sorted (map snd (cache_frame r)) \<and>
      (\<forall>e \<in> set (cache_frame r). snd e = hd (hist r (fst e))))"

text \<open>
  \<^verbatim>\<open>curr_size_\<close> counts the tracked evictable frames, \<^verbatim>\<open>max_size_\<close> is the capacity
  less the tracked frames that are not evictable, and no more frames are tracked than
  the capacity.
\<close>

definition inv_sizes :: "replacer \<Rightarrow> bool" where
  "inv_sizes r =
     (finite {f. tracked r f} \<and>
      unat (curr_size r) = card {f. tracked r f \<and> evictable r f} \<and>
      unat (max_size r) + card {f. tracked r f \<and> \<not> evictable r f} = unat (replacer_size r) \<and>
      card {f. tracked r f} \<le> unat (replacer_size r))"

definition replacer_inv :: "replacer \<Rightarrow> bool" where
  "replacer_inv r =
     (\<not> latch r \<and> inv_queues r \<and> inv_clock r \<and> inv_hist r \<and> inv_order r \<and> inv_sizes r)"

subsection \<open>The states the operations lead to\<close>

text \<open>
  The replacer after frame \<open>f\<close> has left tracking, as Evict and Remove leave it: count and
  history cleared, the node of \<open>f\<close> erased from its queue, one evictable frame less.
\<close>

definition untrack :: "frame_id_t \<Rightarrow> replacer \<Rightarrow> replacer" where
  "untrack f r =
     r\<lparr>recorded_cnt := (recorded_cnt r)(f := 0),
       new_frame := removeAll f (new_frame r),
       cache_frame := filter (\<lambda>e. fst e \<noteq> f) (cache_frame r),
       curr_size := curr_size r - 1,
       hist := (hist r)(f := [])\<rparr>"

text \<open>The replacer after \<^verbatim>\<open>SetEvictable(f, b)\<close> has returned.\<close>

definition flagged :: "frame_id_t \<Rightarrow> bool \<Rightarrow> replacer \<Rightarrow> replacer" where
  "flagged f b r =
     (if recorded_cnt r f = 0 \<or> evictable r f = b then r
      else if b then
        r\<lparr>evictable := (evictable r)(f := True), max_size := max_size r + 1,
          curr_size := curr_size r + 1\<rparr>
      else
        r\<lparr>evictable := (evictable r)(f := False), max_size := max_size r - 1,
          curr_size := curr_size r - 1\<rparr>)"

text \<open>
  The replacer after \<^verbatim>\<open>RecordAccess(f)\<close> has returned normally: the three branches on the
  new count, written as one state.
\<close>

definition accessed :: "frame_id_t \<Rightarrow> replacer \<Rightarrow> replacer" where
  "accessed f r =
     (let ts = current_timestamp r + 1;
          cnt = recorded_cnt r f + 1;
          h = (if lru_k r < cnt then tl (hist r f @ [ts]) else hist r f @ [ts])
      in r\<lparr>current_timestamp := ts,
           recorded_cnt := (recorded_cnt r)(f := cnt),
           hist := (hist r)(f := h),
           evictable := (if recorded_cnt r f = 0 then (evictable r)(f := True) else evictable r),
           curr_size := (if recorded_cnt r f = 0 then curr_size r + 1 else curr_size r),
           new_frame :=
             (if cnt < lru_k r
              then (if recorded_cnt r f = 0 then f # new_frame r else new_frame r)
              else removeAll f (new_frame r)),
           cache_frame :=
             (if cnt < lru_k r then cache_frame r
              else upper_bound_insert (f, hd h) (filter (\<lambda>e. fst e \<noteq> f) (cache_frame r)))\<rparr>)"


subsection \<open>The notions the eviction order is stated with\<close>

text \<open>
  A frame is tracked from its first access until it is evicted or removed. While it has
  fewer than K accesses its history holds all of them, so the front of the history is
  its first access; from K accesses on \<^verbatim>\<open>RecordAccess\<close> drops the front for every new
  entry, so the front is the K-th most recent access.
\<close>

definition below_K_evictable :: "replacer \<Rightarrow> frame_id_t \<Rightarrow> bool" where
  "below_K_evictable r f = (tracked r f \<and> recorded_cnt r f < lru_k r \<and> evictable r f)"

definition at_above_K_evictable :: "replacer \<Rightarrow> frame_id_t \<Rightarrow> bool" where
  "at_above_K_evictable r f = (tracked r f \<and> lru_k r \<le> recorded_cnt r f \<and> evictable r f)"

text \<open>The timestamp that the queues are ordered by: the front of the stored history.\<close>

definition history_front :: "replacer \<Rightarrow> frame_id_t \<Rightarrow> size_t" where
  "history_front r f = hd (hist r f)"

subsection \<open>The accesses as a client sees them\<close>

text \<open>
  The eviction order is a statement about the accesses that were made, not about what
  the replacer has stored of them. This second record follows the words of the
  specification and is kept from the calls and their results alone:
  \<^item> \<open>ticks\<close> is the logical clock, the number of accesses recorded so far;
  \<^item> \<open>access_log f\<close> holds the ticks of all accesses of frame \<open>f\<close> since it entered
    tracking, oldest first; it is empty while \<open>f\<close> is not tracked;
  \<^item> \<open>may_evict f\<close> is the evictability that the client has set: true from the first
    access, changed by \<^verbatim>\<open>SetEvictable\<close> on a tracked frame.
\<close>

record observed =
  ticks :: nat
  access_log :: "frame_id_t \<Rightarrow> nat list"
  may_evict :: "frame_id_t \<Rightarrow> bool"

definition nothing_observed :: observed where
  "nothing_observed = \<lparr> ticks = 0, access_log = (\<lambda>_. []), may_evict = (\<lambda>_. False) \<rparr>"

text \<open>An access that returned: the clock ticks, and the tick joins the log of the frame.\<close>

definition saw_access :: "frame_id_t \<Rightarrow> observed \<Rightarrow> observed" where
  "saw_access f w =
     w\<lparr>ticks := ticks w + 1,
       access_log := (access_log w)(f := access_log w f @ [ticks w + 1]),
       may_evict := (if access_log w f = [] then (may_evict w)(f := True) else may_evict w)\<rparr>"

text \<open>A frame that was handed out by Evict, or a Remove that returned: tracking ends.\<close>

definition saw_leave :: "frame_id_t \<Rightarrow> observed \<Rightarrow> observed" where
  "saw_leave f w = w\<lparr>access_log := (access_log w)(f := [])\<rparr>"

definition saw_flag :: "frame_id_t \<Rightarrow> bool \<Rightarrow> observed \<Rightarrow> observed" where
  "saw_flag f b w =
     (if access_log w f = [] then w else w\<lparr>may_evict := (may_evict w)(f := b)\<rparr>)"

text \<open>
  One call on the replacer together with what the client notes of it. A call that
  throws changes nothing in the notes; a call that deadlocks or is undefined has no
  successor.
\<close>

fun observe :: "replacer \<times> observed \<Rightarrow> op \<Rightarrow> (replacer \<times> observed) option" where
  "observe (r, w) (RecordAccessOp f) =
     (case RecordAccess r f of
        (Returns _, r') \<Rightarrow> Some (r', saw_access f w)
      | (Throws, r') \<Rightarrow> Some (r', w)
      | (Deadlocks, _) \<Rightarrow> None
      | (Undefined, _) \<Rightarrow> None)"
| "observe (r, w) EvictOp =
     (case Evict r of
        (Returns None, r') \<Rightarrow> Some (r', w)
      | (Returns (Some f), r') \<Rightarrow> Some (r', saw_leave f w)
      | (Throws, r') \<Rightarrow> Some (r', w)
      | (Deadlocks, _) \<Rightarrow> None
      | (Undefined, _) \<Rightarrow> None)"
| "observe (r, w) (SetEvictableOp f b) =
     (case SetEvictable r f b of
        (Returns _, r') \<Rightarrow> Some (r', saw_flag f b w)
      | (Throws, r') \<Rightarrow> Some (r', w)
      | (Deadlocks, _) \<Rightarrow> None
      | (Undefined, _) \<Rightarrow> None)"
| "observe (r, w) (RemoveOp f) =
     (case Remove r f of
        (Returns _, r') \<Rightarrow> Some (r', saw_leave f w)
      | (Throws, r') \<Rightarrow> Some (r', w)
      | (Deadlocks, _) \<Rightarrow> None
      | (Undefined, _) \<Rightarrow> None)"
| "observe (r, w) SizeOp = Some (r, w)"

fun observe_run :: "replacer \<times> observed \<Rightarrow> op list \<Rightarrow> (replacer \<times> observed) option" where
  "observe_run s [] = Some s"
| "observe_run s (x # xs) = (case observe s x of None \<Rightarrow> None | Some s' \<Rightarrow> observe_run s' xs)"

text \<open>
  The notions of the eviction order, read off the log: the number of accesses of a
  frame since it entered tracking, its first access, and its K-th most recent access.
\<close>

definition access_count :: "observed \<Rightarrow> frame_id_t \<Rightarrow> nat" where
  "access_count w f = length (access_log w f)"

definition first_access_at :: "observed \<Rightarrow> frame_id_t \<Rightarrow> nat" where
  "first_access_at w f = hd (access_log w f)"

definition kth_recent_access_at :: "nat \<Rightarrow> observed \<Rightarrow> frame_id_t \<Rightarrow> nat" where
  "kth_recent_access_at K w f = access_log w f ! (access_count w f - K)"

definition evictable_below_K :: "nat \<Rightarrow> observed \<Rightarrow> frame_id_t \<Rightarrow> bool" where
  "evictable_below_K K w f = (0 < access_count w f \<and> access_count w f < K \<and> may_evict w f)"

definition evictable_at_above_K :: "nat \<Rightarrow> observed \<Rightarrow> frame_id_t \<Rightarrow> bool" where
  "evictable_at_above_K K w f = (0 < access_count w f \<and> K \<le> access_count w f \<and> may_evict w f)"

text \<open>
  What ties the replacer to the log: the clock and the counts are the same numbers, the
  stored history of a frame is the last K ticks of its log, and the flags are the same.
  No tick of a log is ahead of the clock, no tick is in two logs, and with K = 0 no
  frame is ever tracked.
\<close>

definition agrees :: "replacer \<Rightarrow> observed \<Rightarrow> bool" where
  "agrees r w =
     (unat (current_timestamp r) = ticks w \<and>
      (\<forall>f. unat (recorded_cnt r f) = length (access_log w f)) \<and>
      (\<forall>f. hist r f =
           map of_nat (drop (length (access_log w f) - unat (lru_k r)) (access_log w f))) \<and>
      evictable r = may_evict w \<and>
      (\<forall>f. \<forall>t \<in> set (access_log w f). t \<le> ticks w) \<and>
      (\<forall>f g. f \<noteq> g \<longrightarrow> set (access_log w f) \<inter> set (access_log w g) = {}) \<and>
      (lru_k r = 0 \<longrightarrow> (\<forall>f. access_log w f = [])))"

text \<open>
  Queue membership as a function of the access count: no frame id twice in a queue,
  below-K exactly for a positive count less than K, at/above-K exactly for a positive
  count of at least K, and never both.
\<close>

definition queues_by_count :: "replacer \<Rightarrow> bool" where
  "queues_by_count r =
     (distinct (new_frame r) \<and> distinct (map fst (cache_frame r)) \<and>
      (\<forall>f. (in_below_K r f = (tracked r f \<and> recorded_cnt r f < lru_k r)) \<and>
           (in_at_above_K r f = (tracked r f \<and> lru_k r \<le> recorded_cnt r f)) \<and>
           \<not> (in_below_K r f \<and> in_at_above_K r f)))"

subsection \<open>Example runs\<close>

text \<open>A run of accesses from a given replacer, each call taken for its final state.\<close>

definition accesses :: "replacer \<Rightarrow> frame_id_t list \<Rightarrow> replacer" where
  "accesses r fs = foldl (\<lambda>r frame_id. snd (RecordAccess r frame_id)) r fs"

text \<open>
  The scenario of the specification: a replacer for 3 frames with K = 2 after the
  accesses to the frames 1, 2, 3 and 1 again.
\<close>

definition scenario :: replacer where
  "scenario = accesses (LRUKReplacer 3 2) [1, 2, 3, 1]"

text \<open>A replacer whose only tracked frame has been made non-evictable.\<close>

definition pinned_example :: replacer where
  "pinned_example = snd (SetEvictable (accesses (LRUKReplacer 3 2) [1]) 1 False)"

section \<open>The extendible hash table (extendible\_hash\_table.cpp)\<close>

text \<open>
  The table of the source is a vector \<^verbatim>\<open>dir_\<close> of shared pointers to buckets; several
  slots may point to one bucket, and \<^verbatim>\<open>Insert\<close> compares pointers. The model keeps the
  bucket objects in a list \<open>heap\<close>, in the order of their allocation, and a pointer is the
  position of its bucket in that list: \<^verbatim>\<open>std::make_shared\<close> appends a bucket, a write
  through a pointer updates the list at that position, and two pointers are equal when
  the positions are.

  \<^item> \<^verbatim>\<open>std::hash<K>\<close> is a parameter \<open>hash\<close> of the operations, with the value of the
    \<^verbatim>\<open>size_t\<close> it returns.
  \<^item> \<^verbatim>\<open>global_depth_\<close>, the depth of a bucket and \<^verbatim>\<open>num_buckets_\<close> are \<^verbatim>\<open>int\<close>s that
    start at 0 or 1 and are only ever incremented; the global depth is capped at 20 and
    no depth exceeds it, so they are natural numbers here.
  \<^item> \<^verbatim>\<open>bucket_size_\<close> and the capacity of a bucket are \<^verbatim>\<open>size_t\<close> values that are only
    stored and compared with the length of a list: natural numbers.
  \<^item> Every public operation holds \<^verbatim>\<open>latch_\<close> for its whole body and none calls another
    public operation, so the bodies run one after the other and the latch is left out.
  \<^item> Indexing \<^verbatim>\<open>dir_\<close> outside its bounds is undefined behaviour; the model reports it as
    \<open>Undefined\<close>.
  \<^item> The members keep their names without the trailing underscore; the members of a
    bucket are \<open>b_size\<close>, \<open>b_depth\<close> and \<open>b_list\<close>.
\<close>

record ('k, 'v) Bucket =
  b_size :: nat
  b_depth :: nat
  b_list :: "('k \<times> 'v) list"

record ('k, 'v) table =
  global_depth :: nat
  bucket_size :: nat
  num_buckets :: nat
  dir :: "nat list"
  heap :: "('k, 'v) Bucket list"

definition kMaxGlobalDepth :: nat where
  "kMaxGlobalDepth = 20"

definition Bucket :: "nat \<Rightarrow> nat \<Rightarrow> ('k, 'v) Bucket" where
  "Bucket sz depth = \<lparr> b_size = sz, b_depth = depth, b_list = [] \<rparr>"

text \<open>The constructor: global depth 0 and one slot that points to one empty bucket.\<close>

definition ExtendibleHashTable :: "nat \<Rightarrow> ('k, 'v) table" where
  "ExtendibleHashTable sz =
     \<lparr> global_depth = 0, bucket_size = sz, num_buckets = 1, dir = [0],
       heap = [Bucket sz 0] \<rparr>"

text \<open>\<^verbatim>\<open>hash & ((1 << global_depth_) - 1)\<close>.\<close>

definition IndexOf :: "('k \<Rightarrow> nat) \<Rightarrow> ('k, 'v) table \<Rightarrow> 'k \<Rightarrow> nat" where
  "IndexOf hash t key = (hash key) AND (push_bit (global_depth t) 1 - 1)"

definition IsFull :: "('k, 'v) Bucket \<Rightarrow> bool" where
  "IsFull b = (length (b_list b) = b_size b)"

subsection \<open>The operations of a bucket\<close>

definition Bucket_Find :: "('k, 'v) Bucket \<Rightarrow> 'k \<Rightarrow> 'v option" where
  "Bucket_Find b key =
     (case find (\<lambda>item. fst item = key) (b_list b) of
        Some item \<Rightarrow> Some (snd item)
      | None \<Rightarrow> None)"

text \<open>\<^verbatim>\<open>Bucket::Remove\<close> erases the first entry with the key.\<close>

definition Bucket_Remove :: "('k, 'v) Bucket \<Rightarrow> 'k \<Rightarrow> bool \<times> ('k, 'v) Bucket" where
  "Bucket_Remove b key =
     (case find (\<lambda>item. fst item = key) (b_list b) of
        Some item \<Rightarrow> (True, b\<lparr>b_list := remove1 item (b_list b)\<rparr>)
      | None \<Rightarrow> (False, b))"

text \<open>
  \<^verbatim>\<open>Bucket::Insert\<close> overwrites the value of the first entry with the key; without such an
  entry it fails on a full bucket and appends otherwise.
\<close>

fun assign_first :: "'k \<Rightarrow> 'v \<Rightarrow> ('k \<times> 'v) list \<Rightarrow> ('k \<times> 'v) list" where
  "assign_first key value [] = []"
| "assign_first key value (item # items) =
     (if fst item = key then (fst item, value) # items
      else item # assign_first key value items)"

definition Bucket_Insert :: "('k, 'v) Bucket \<Rightarrow> 'k \<Rightarrow> 'v \<Rightarrow> bool \<times> ('k, 'v) Bucket" where
  "Bucket_Insert b key value =
     (if key \<in> fst ` set (b_list b) then (True, b\<lparr>b_list := assign_first key value (b_list b)\<rparr>)
      else if IsFull b then (False, b)
      else (True, b\<lparr>b_list := b_list b @ [(key, value)]\<rparr>))"

subsection \<open>The operations of the table\<close>

definition valid_slot :: "('k, 'v) table \<Rightarrow> nat \<Rightarrow> bool" where
  "valid_slot t index = (index < length (dir t) \<and> dir t ! index < length (heap t))"

definition Find :: "('k \<Rightarrow> nat) \<Rightarrow> ('k, 'v) table \<Rightarrow> 'k \<Rightarrow> 'v option outcome" where
  "Find hash t key =
     (let index = IndexOf hash t key in
      if \<not> valid_slot t index then Undefined
      else Returns (Bucket_Find (heap t ! (dir t ! index)) key))"

definition Remove_key ::
  "('k \<Rightarrow> nat) \<Rightarrow> ('k, 'v) table \<Rightarrow> 'k \<Rightarrow> bool outcome \<times> ('k, 'v) table" where
  "Remove_key hash t key =
     (let index = IndexOf hash t key in
      if \<not> valid_slot t index then (Undefined, t)
      else
        (let b = dir t ! index; (found, bucket) = Bucket_Remove (heap t ! b) key
         in (Returns found, t\<lparr>heap := (heap t)[b := bucket]\<rparr>)))"

definition GetGlobalDepth :: "('k, 'v) table \<Rightarrow> nat" where
  "GetGlobalDepth t = global_depth t"

definition GetLocalDepth :: "('k, 'v) table \<Rightarrow> nat \<Rightarrow> nat outcome" where
  "GetLocalDepth t dir_index =
     (if \<not> valid_slot t dir_index then Undefined
      else Returns (b_depth (heap t ! (dir t ! dir_index))))"

definition GetNumBuckets :: "('k, 'v) table \<Rightarrow> nat" where
  "GetNumBuckets t = num_buckets t"

text \<open>
  \<^verbatim>\<open>Insert\<close>, lines 80 to 85: the directory doubles, the new upper half repeating the
  lower half.
\<close>

definition grow_directory :: "('k, 'v) table \<Rightarrow> ('k, 'v) table" where
  "grow_directory t = t\<lparr>global_depth := global_depth t + 1, dir := dir t @ dir t\<rparr>"

text \<open>
  \<^verbatim>\<open>Insert\<close>, lines 88 to 111: the bucket \<open>b\<close> deepens by one and a new bucket of the same
  depth is allocated; every entry of \<open>b\<close> whose index under the current global depth
  differs from \<open>index\<close> (the index of the key being inserted, computed before the
  directory grew) is inserted into the new bucket and erased from \<open>b\<close>; every slot that
  points to \<open>b\<close> and has the bit of the new depth set is pointed to the new bucket.
\<close>

definition split_bucket ::
  "('k \<Rightarrow> nat) \<Rightarrow> nat \<Rightarrow> nat \<Rightarrow> ('k, 'v) table \<Rightarrow> ('k, 'v) table" where
  "split_bucket hash index b t =
     (let bucket = (heap t ! b)\<lparr>b_depth := b_depth (heap t ! b) + 1\<rparr>;
          new_bucket = Bucket (bucket_size t) (b_depth bucket);
          nb = length (heap t);
          moves = (\<lambda>item. IndexOf hash t (fst item) \<noteq> index);
          new_bucket' = foldl (\<lambda>n item. snd (Bucket_Insert n (fst item) (snd item)))
                          new_bucket (filter moves (b_list bucket));
          bucket' = bucket\<lparr>b_list := filter (\<lambda>item. \<not> moves item) (b_list bucket)\<rparr>
      in t\<lparr>num_buckets := num_buckets t + 1,
           heap := (heap t)[b := bucket'] @ [new_bucket'],
           dir := map (\<lambda>(i, p). if p = b \<and> i AND push_bit (b_depth bucket - 1) 1 \<noteq> 0
                                 then nb else p)
                      (enumerate 0 (dir t))\<rparr>)"

text \<open>
  One pass through the body of the \<^verbatim>\<open>while (true)\<close> loop of \<^verbatim>\<open>Insert\<close>: it returns, throws
  the overflow error, or has split a bucket and goes round again.
\<close>

datatype ('k, 'v) progress =
    Done "unit outcome \<times> ('k, 'v) table"
  | Again "('k, 'v) table"

definition Insert_iteration ::
  "('k \<Rightarrow> nat) \<Rightarrow> ('k, 'v) table \<Rightarrow> 'k \<Rightarrow> 'v \<Rightarrow> ('k, 'v) progress" where
  "Insert_iteration hash t key value =
     (let index = IndexOf hash t key in
      if \<not> valid_slot t index then Done (Undefined, t)
      else
        (let b = dir t ! index in
         case Bucket_Insert (heap t ! b) key value of
           (True, bucket) \<Rightarrow> Done (Returns (), t\<lparr>heap := (heap t)[b := bucket]\<rparr>)
         | (False, _) \<Rightarrow>
             if b_depth (heap t ! b) = global_depth t then
               (if global_depth t \<ge> kMaxGlobalDepth then Done (Throws, t)
                else Again (split_bucket hash index b (grow_directory t)))
             else Again (split_bucket hash index b t)))"

text \<open>The loop; \<open>None\<close> is a loop that never ends.\<close>

partial_function (option) Insert_loop ::
  "('k \<Rightarrow> nat) \<Rightarrow> ('k, 'v) table \<Rightarrow> 'k \<Rightarrow> 'v \<Rightarrow> (unit outcome \<times> ('k, 'v) table) option" where
  "Insert_loop hash t key value =
     (case Insert_iteration hash t key value of
        Done result \<Rightarrow> Some result
      | Again t' \<Rightarrow> Insert_loop hash t' key value)"

declare Insert_loop.simps [code]

definition Insert ::
  "('k \<Rightarrow> nat) \<Rightarrow> ('k, 'v) table \<Rightarrow> 'k \<Rightarrow> 'v \<Rightarrow> (unit outcome \<times> ('k, 'v) table) option" where
  "Insert hash t key value = Insert_loop hash t key value"

subsection \<open>Sequences of calls on a table\<close>

text \<open>
  As for the replacer: a call that returns or throws leaves a table to go on with; a
  call that runs into undefined behaviour or does not end has no successor state.
\<close>

datatype ('k, 'v) table_op =
    FindOp 'k
  | InsertOp 'k 'v
  | RemoveKeyOp 'k
  | GetGlobalDepthOp
  | GetLocalDepthOp nat
  | GetNumBucketsOp

fun table_step ::
  "('k \<Rightarrow> nat) \<Rightarrow> ('k, 'v) table \<Rightarrow> ('k, 'v) table_op \<Rightarrow> ('k, 'v) table option" where
  "table_step hash t (FindOp key) =
     (case Find hash t key of Returns _ \<Rightarrow> Some t | _ \<Rightarrow> None)"
| "table_step hash t (InsertOp key v) =
     (case Insert hash t key v of
        Some (Returns _, t') \<Rightarrow> Some t'
      | Some (Throws, t') \<Rightarrow> Some t'
      | _ \<Rightarrow> None)"
| "table_step hash t (RemoveKeyOp key) =
     (case Remove_key hash t key of (Returns _, t') \<Rightarrow> Some t' | _ \<Rightarrow> None)"
| "table_step hash t GetGlobalDepthOp = Some t"
| "table_step hash t (GetLocalDepthOp dir_index) =
     (case GetLocalDepth t dir_index of Returns _ \<Rightarrow> Some t | _ \<Rightarrow> None)"
| "table_step hash t GetNumBucketsOp = Some t"

fun table_run ::
  "('k \<Rightarrow> nat) \<Rightarrow> ('k, 'v) table \<Rightarrow> ('k, 'v) table_op list \<Rightarrow> ('k, 'v) table option" where
  "table_run hash t [] = Some t"
| "table_run hash t (x # xs) =
     (case table_step hash t x of None \<Rightarrow> None | Some t' \<Rightarrow> table_run hash t' xs)"

subsection \<open>The directory invariant\<close>

text \<open>
  The directory has \<open>2 ^ global_depth\<close> slots, every slot points to an allocated bucket,
  and the depth of that bucket is at most the global depth.
\<close>

definition dir_inv :: "('k, 'v) table \<Rightarrow> bool" where
  "dir_inv t =
     (length (dir t) = 2 ^ global_depth t \<and>
      (\<forall>i < length (dir t).
         dir t ! i < length (heap t) \<and> b_depth (heap t ! (dir t ! i)) \<le> global_depth t))"

text \<open>The depth of the bucket that a key is routed to.\<close>

definition depth_at :: "('k \<Rightarrow> nat) \<Rightarrow> 'k \<Rightarrow> ('k, 'v) table \<Rightarrow> nat" where
  "depth_at hash key t = b_depth (heap t ! (dir t ! IndexOf hash t key))"

subsection \<open>Example tables\<close>



text \<open>
  The table for buckets of one entry after the inserts of the keys 0, 2 and 1, and
  after the insert of key 3 that follows.
\<close>

definition three_key_table :: "(nat, nat) table" where
  "three_key_table =
     \<lparr> global_depth = 2, bucket_size = 1, num_buckets = 3, dir = [0, 1, 2, 1],
       heap = [\<lparr> b_size = 1, b_depth = 2, b_list = [(0, 10)] \<rparr>,
               \<lparr> b_size = 1, b_depth = 1, b_list = [(1, 11)] \<rparr>,
               \<lparr> b_size = 1, b_depth = 2, b_list = [(2, 12)] \<rparr>] \<rparr>"

definition four_key_table :: "(nat, nat) table" where
  "four_key_table =
     \<lparr> global_depth = 3, bucket_size = 1, num_buckets = 5, dir = [0, 1, 2, 3, 0, 1, 2, 4],
       heap = [\<lparr> b_size = 1, b_depth = 2, b_list = [(0, 10)] \<rparr>,
               \<lparr> b_size = 1, b_depth = 2, b_list = [] \<rparr>,
               \<lparr> b_size = 1, b_depth = 2, b_list = [(2, 12)] \<rparr>,
               \<lparr> b_size = 1, b_depth = 3, b_list = [(3, 13)] \<rparr>,
               \<lparr> b_size = 1, b_depth = 3, b_list = [(1, 11)] \<rparr>] \<rparr>"


section \<open>The replacer on concrete inputs\<close>

lemmas replacer_eval =
  lock_guard_def RecordAccess_def RecordAccess_body_def first_access_def requeue_def
  Evict_def Evict_body_def Size_def erase_new_def erase_cache_def LRUKReplacer_def
  Remove_def Remove_body_def SetEvictable_def SetEvictable_body_def
  Let_def CmpTimestamp_def accesses_def

lemma scenario_state:
  "new_frame scenario = [3, 2] \<and> cache_frame scenario = [(1, 1)] \<and> \<not> latch scenario \<and>
   curr_size scenario = 3 \<and> max_size scenario = 3 \<and> lru_k scenario = 2 \<and>
   replacer_size scenario = 3 \<and>
   recorded_cnt scenario 1 = 2 \<and> recorded_cnt scenario 2 = 1 \<and> recorded_cnt scenario 3 = 1 \<and>
   recorded_cnt scenario 0 = 0 \<and>
   evictable scenario 1 \<and> evictable scenario 2 \<and> evictable scenario 3"
  by (simp add: scenario_def replacer_eval)

lemma unlatched_unchanged: "\<not> latch r \<Longrightarrow> r\<lparr>latch := False\<rparr> = r"
  by simp

text \<open>
  C3 as stated fails: in the scenario (K = 2, capacity 3, accesses 1, 2, 3, 1) the first
  call of Evict does not return frame 3.
\<close>

theorem scenario_first_evict_not_3:
  "fst (Evict scenario) \<noteq> Returns (Some 3)"
  by (simp add: scenario_def replacer_eval)

text \<open>
  C3, amended: after the four accesses frame 1 sits in the at/above-K queue and the
  frames 2 and 3 in the below-K queue, all three evictable; the first call of Evict
  returns frame 2, the frame at the tail of the below-K queue, and the next call
  returns frame 3.
\<close>

theorem scenario_evicts_2_then_3:
  "new_frame scenario = [3, 2] \<and> map fst (cache_frame scenario) = [1] \<and>
   evictable scenario 1 \<and> evictable scenario 2 \<and> evictable scenario 3 \<and>
   fst (Evict scenario) = Returns (Some 2) \<and>
   fst (Evict (snd (Evict scenario))) = Returns (Some 3)"
  by (simp add: scenario_def replacer_eval)

text \<open>
  C9: RecordAccess calls the public, self-locking Evict while it holds the latch. In the
  scenario all 3 slots are taken, so the first access to frame 0 reaches that call and
  the thread blocks on the latch it already holds.
\<close>

theorem RecordAccess_at_capacity_deadlocks:
  "fst (RecordAccess scenario 0) = Deadlocks"
  by (simp add: scenario_def replacer_eval)

text \<open>
  C7 as stated fails: a frame id equal to the capacity passes the range guard of
  RecordAccess and of Remove; RecordAccess then changes the state.
\<close>

theorem frame_id_at_capacity_accepted:
  "fst (RecordAccess (LRUKReplacer 3 2) 3) = Returns () \<and>
   new_frame (snd (RecordAccess (LRUKReplacer 3 2) 3)) \<noteq> new_frame (LRUKReplacer 3 2) \<and>
   fst (Remove (LRUKReplacer 3 2) 3) = Returns ()"
  by (simp add: replacer_eval)

text \<open>
  C7, amended: RecordAccess and Remove called with a frame id greater than the capacity
  throw and leave the replacer exactly as it was.
\<close>

theorem out_of_range_throws_unchanged:
  assumes "\<not> latch r" and "uint (replacer_size r) < frame_id"
  shows "RecordAccess r frame_id = (Throws, r) \<and> Remove r frame_id = (Throws, r)"
  using assms
  by (simp add: RecordAccess_def RecordAccess_body_def Remove_def Remove_body_def lock_guard_def)

theorem out_of_range_throws_unchanged_witness:
  "\<not> latch (LRUKReplacer 3 2) \<and> uint (replacer_size (LRUKReplacer 3 2)) < 4 \<and>
   RecordAccess (LRUKReplacer 3 2) 4 = (Throws, LRUKReplacer 3 2) \<and>
   Remove (LRUKReplacer 3 2) 4 = (Throws, LRUKReplacer 3 2)"
proof -
  have h1: "\<not> latch (LRUKReplacer 3 2)"
    by (simp add: LRUKReplacer_def)
  have h2: "uint (replacer_size (LRUKReplacer 3 2)) < 4"
    by (simp add: LRUKReplacer_def)
  from out_of_range_throws_unchanged [OF h1 h2] h1 h2 show ?thesis
    by simp
qed

text \<open>
  C10: SetEvictable called on a tracked frame whose flag already has the requested
  value returns with the replacer unchanged, so Size and the capacity ceiling keep
  their values; and a second call with the same arguments changes nothing more.
\<close>

theorem SetEvictable_idempotent:
  assumes "\<not> latch r"
  shows "(recorded_cnt r frame_id \<noteq> 0 \<and> evictable r frame_id = b \<longrightarrow>
            SetEvictable r frame_id b = (Returns (), r) \<and>
            Size (snd (SetEvictable r frame_id b)) = Size r \<and>
            max_size (snd (SetEvictable r frame_id b)) = max_size r) \<and>
         SetEvictable (snd (SetEvictable r frame_id b)) frame_id b =
           (Returns (), snd (SetEvictable r frame_id b)) \<and>
         fst (SetEvictable r frame_id b) = Returns ()"
  using assms
  by (cases r)
     (auto simp add: SetEvictable_def SetEvictable_body_def lock_guard_def Let_def Size_def)

theorem SetEvictable_idempotent_witness:
  "\<not> latch scenario \<and> recorded_cnt scenario 1 \<noteq> 0 \<and> evictable scenario 1 = True \<and>
   SetEvictable scenario 1 True = (Returns (), scenario) \<and>
   Size (snd (SetEvictable scenario 1 True)) = Size scenario \<and>
   max_size (snd (SetEvictable scenario 1 True)) = max_size scenario \<and>
   SetEvictable (snd (SetEvictable scenario 2 False)) 2 False =
     (Returns (), snd (SetEvictable scenario 2 False))"
proof -
  have h: "\<not> latch scenario"
    by (simp add: scenario_state)
  from SetEvictable_idempotent [OF h, of 1 True] SetEvictable_idempotent [OF h, of 2 False]
  show ?thesis
    by (simp add: scenario_state)
qed

section \<open>The invariant of the replacer\<close>

lemma find_Some_D: "find P xs = Some x \<Longrightarrow> x \<in> set xs \<and> P x"
  by (induction xs) (auto split: if_splits)

lemma remove1_distinct_fst:
  "distinct (map fst q) \<Longrightarrow> e \<in> set q \<Longrightarrow> remove1 e q = filter (\<lambda>x. fst x \<noteq> fst e) q"
  by (induction q) (auto simp: rev_image_eqI intro!: filter_True [symmetric])

lemma filter_fst_absent: "f \<notin> fst ` set q \<Longrightarrow> filter (\<lambda>x. fst x \<noteq> f) q = q"
  by (induction q) auto

lemma below_K_D:
  "inv_queues r \<Longrightarrow> f \<in> set (new_frame r) \<Longrightarrow>
     tracked r f \<and> recorded_cnt r f < lru_k r \<and> f \<notin> fst ` set (cache_frame r)"
  by (auto simp: inv_queues_def in_below_K_def in_at_above_K_def)

lemma at_above_K_D:
  "inv_queues r \<Longrightarrow> f \<in> fst ` set (cache_frame r) \<Longrightarrow>
     tracked r f \<and> lru_k r \<le> recorded_cnt r f \<and> f \<notin> set (new_frame r)"
  by (auto simp: inv_queues_def in_below_K_def in_at_above_K_def)

lemma Evict_result:
  assumes "\<not> latch r" "inv_queues r"
  shows "Evict r = (Returns None, r) \<or>
         (\<exists>f. tracked r f \<and> evictable r f \<and> Evict r = (Returns (Some f), untrack f r))"
proof (cases "Size r = 0")
  case True
  with assms show ?thesis by (simp add: Evict_def lock_guard_def Evict_body_def Size_def)
next
  case False
  then have nz: "curr_size r \<noteq> 0" by (simp add: Size_def)
  show ?thesis
  proof (cases "find (evictable r) (rev (new_frame r))")
    case (Some f)
    then have f: "f \<in> set (new_frame r)" "evictable r f"
      using find_Some_D by fastforce+
    with assms have nc: "f \<notin> fst ` set (cache_frame r)" and tr: "tracked r f"
      using below_K_D by blast+
    have "Evict r = (Returns (Some f), untrack f r)"
      using assms nz Some nc
      by (simp add: Evict_def lock_guard_def Evict_body_def Size_def untrack_def filter_fst_absent)
    with f tr show ?thesis by blast
  next
    case None
    show ?thesis
    proof (cases "find (\<lambda>e. evictable r (fst e)) (cache_frame r)")
      case n2: None
      with assms nz None show ?thesis by (simp add: Evict_def lock_guard_def Evict_body_def Size_def)
    next
      case (Some e)
      then have e: "e \<in> set (cache_frame r)" "evictable r (fst e)"
        using find_Some_D by fastforce+
      then have "fst e \<in> fst ` set (cache_frame r)" by simp
      with assms have nn: "fst e \<notin> set (new_frame r)" and tr: "tracked r (fst e)"
        using at_above_K_D by blast+
      have d: "distinct (map fst (cache_frame r))" using assms by (simp add: inv_queues_def)
      have "Evict r = (Returns (Some (fst e)), untrack (fst e) r)"
        using assms nz None Some nn remove1_distinct_fst [OF d e(1)]
        by (simp add: Evict_def lock_guard_def Evict_body_def Size_def untrack_def)
      with e tr show ?thesis by blast
    qed
  qed
qed


lemma untrack_fields [simp]:
  "recorded_cnt (untrack f r) = (recorded_cnt r)(f := 0)"
  "new_frame (untrack f r) = removeAll f (new_frame r)"
  "cache_frame (untrack f r) = filter (\<lambda>e. fst e \<noteq> f) (cache_frame r)"
  "curr_size (untrack f r) = curr_size r - 1"
  "hist (untrack f r) = (hist r)(f := [])"
  "max_size (untrack f r) = max_size r"
  "replacer_size (untrack f r) = replacer_size r"
  "lru_k (untrack f r) = lru_k r"
  "current_timestamp (untrack f r) = current_timestamp r"
  "evictable (untrack f r) = evictable r"
  "latch (untrack f r) = latch r"
  by (simp_all add: untrack_def)

lemma tracked_untrack [simp]: "tracked (untrack f r) g = (g \<noteq> f \<and> tracked r g)"
  by (simp add: tracked_def)

lemma untrack_inv_queues: "inv_queues r \<Longrightarrow> inv_queues (untrack f r)"
  unfolding inv_queues_def in_below_K_def in_at_above_K_def
  by (auto simp: distinct_map_filter tracked_def intro: distinct_removeAll)

lemma untrack_inv_clock: "inv_clock r \<Longrightarrow> inv_clock (untrack f r)"
  unfolding inv_clock_def by simp

lemma untrack_inv_hist: "inv_hist r \<Longrightarrow> inv_hist (untrack f r)"
  unfolding inv_hist_def by simp

lemma untrack_inv_order: "inv_order r \<Longrightarrow> inv_order (untrack f r)"
  unfolding inv_order_def
proof (intro conjI)
  assume a: "sorted_wrt (\<lambda>f g. hd (hist r g) < hd (hist r f)) (new_frame r) \<and>
    sorted (map snd (cache_frame r)) \<and> (\<forall>e\<in>set (cache_frame r). snd e = hd (hist r (fst e)))"
  have "sorted_wrt (\<lambda>f g. hd (hist r g) < hd (hist r f)) (removeAll f (new_frame r))"
    using a by (simp add: removeAll_filter_not_eq sorted_wrt_filter)
  then have "sorted_wrt (\<lambda>fa g. hd (((hist r)(f := [])) g) < hd (((hist r)(f := [])) fa))
     (removeAll f (new_frame r))"
    by (rule sorted_wrt_mono_rel [rotated]) auto
  then show "sorted_wrt (\<lambda>fa g. hd (hist (untrack f r) g) < hd (hist (untrack f r) fa))
     (new_frame (untrack f r))"
    by simp
  show "sorted (map snd (cache_frame (untrack f r)))"
    using a by (simp add: sorted_map sorted_wrt_filter)
  show "\<forall>e\<in>set (cache_frame (untrack f r)). snd e = hd (hist (untrack f r) (fst e))"
    using a by auto
qed

lemma untrack_inv_sizes:
  assumes "inv_sizes r" "tracked r f" "evictable r f"
  shows "inv_sizes (untrack f r)"
proof -
  let ?E = "{g. tracked r g \<and> evictable r g}"
  have fin: "finite {g. tracked r g}" using assms by (simp add: inv_sizes_def)
  then have finE: "finite ?E" by simp
  have fE: "f \<in> ?E" using assms by simp
  have e1: "{g. tracked (untrack f r) g \<and> evictable (untrack f r) g} = ?E - {f}" by auto
  have e2: "{g. tracked (untrack f r) g \<and> \<not> evictable (untrack f r) g} =
            {g. tracked r g \<and> \<not> evictable r g}" using assms by auto
  have e3: "{g. tracked (untrack f r) g} = {g. tracked r g} - {f}" by auto
  have cpos: "0 < card ?E" using finE fE by (auto simp: card_gt_0_iff)
  then have "curr_size r \<noteq> 0" using assms by (auto simp: inv_sizes_def)
  then have u: "unat (curr_size r - 1) = unat (curr_size r) - 1" by (simp add: unat_minus_one)
  have "card ({g. tracked r g} - {f}) \<le> card {g. tracked r g}"
    using fin by (simp add: card_Diff1_le)
  also have "\<dots> \<le> unat (replacer_size r)" using assms by (simp add: inv_sizes_def)
  finally have c3: "card ({g. tracked r g} - {f}) \<le> unat (replacer_size r)" .
  have c1: "unat (curr_size r - 1) = card (?E - {f})"
    using assms finE fE u by (simp add: inv_sizes_def)
  have c2: "unat (max_size r) + card {g. tracked r g \<and> \<not> evictable r g} = unat (replacer_size r)"
    using assms by (simp add: inv_sizes_def)
  show ?thesis
    unfolding inv_sizes_def e1 e2 e3 using fin c1 c2 c3 by simp
qed

lemma untrack_inv:
  "replacer_inv r \<Longrightarrow> tracked r f \<Longrightarrow> evictable r f \<Longrightarrow> replacer_inv (untrack f r)"
  unfolding replacer_inv_def
  by (simp add: untrack_inv_queues untrack_inv_clock untrack_inv_hist untrack_inv_order
      untrack_inv_sizes)


lemma find_fst_in:
  "f \<in> fst ` set q \<Longrightarrow> \<exists>e. find (\<lambda>e. fst e = f) q = Some e \<and> e \<in> set q \<and> fst e = f"
  by (induction q) auto

lemma find_fst_notin: "f \<notin> fst ` set q \<Longrightarrow> find (\<lambda>e. fst e = f) q = None"
  by (induction q) auto

lemma erase_cache_in:
  "distinct (map fst q) \<Longrightarrow> f \<in> fst ` set q \<Longrightarrow>
     erase_cache f q = Some (filter (\<lambda>e. fst e \<noteq> f) q)"
  using find_fst_in [of f q] remove1_distinct_fst [of q]
  by (auto simp: erase_cache_def)

lemma erase_cache_notin: "f \<notin> fst ` set q \<Longrightarrow> erase_cache f q = None"
  by (simp add: erase_cache_def find_fst_notin)

lemma erase_new_in:
  "distinct q \<Longrightarrow> f \<in> set q \<Longrightarrow> erase_new f q = Some (removeAll f q)"
  by (simp add: erase_new_def distinct_remove1_removeAll)

lemma erase_new_notin: "f \<notin> set q \<Longrightarrow> erase_new f q = None"
  by (simp add: erase_new_def)

lemma Remove_result:
  assumes "\<not> latch r" "inv_queues r"
  shows "Remove r f =
     (if uint (replacer_size r) < f then (Throws, r)
      else if recorded_cnt r f = 0 then (Returns (), r)
      else if \<not> evictable r f then (Throws, r)
      else (Returns (), untrack f r))"
proof -
  have d: "distinct (new_frame r)" "distinct (map fst (cache_frame r))"
    using assms by (simp_all add: inv_queues_def)
  { assume c: "recorded_cnt r f \<noteq> 0" "recorded_cnt r f < lru_k r"
    with assms have "f \<in> set (new_frame r)"
      by (auto simp: inv_queues_def in_below_K_def tracked_def)
    with assms d have "erase_new f (new_frame r) = Some (removeAll f (new_frame r))"
       "filter (\<lambda>e. fst e \<noteq> f) (cache_frame r) = cache_frame r"
      using below_K_D [of r f] by (simp_all add: erase_new_in filter_fst_absent)
  } note below = this
  { assume c: "recorded_cnt r f \<noteq> 0" "\<not> recorded_cnt r f < lru_k r"
    with assms have "f \<in> fst ` set (cache_frame r)"
      by (auto simp: inv_queues_def in_at_above_K_def tracked_def)
    with assms d have "erase_cache f (cache_frame r) = Some (filter (\<lambda>e. fst e \<noteq> f) (cache_frame r))"
       "removeAll f (new_frame r) = new_frame r"
      using at_above_K_D [of r f] by (simp_all add: erase_cache_in)
  } note above = this
  show ?thesis
    using assms(1) below above
    by (cases "recorded_cnt r f < lru_k r")
       (auto simp: Remove_def Remove_body_def lock_guard_def Let_def untrack_def)
qed


lemma SetEvictable_result:
  "\<not> latch r \<Longrightarrow> SetEvictable r f b = (Returns (), flagged f b r)"
  by (cases r)
     (auto simp add: SetEvictable_def SetEvictable_body_def lock_guard_def Let_def flagged_def)

lemma flagged_other:
  "inv_queues (flagged f b r) = inv_queues r"
  "inv_clock (flagged f b r) = inv_clock r"
  "inv_hist (flagged f b r) = inv_hist r"
  "inv_order (flagged f b r) = inv_order r"
  "latch (flagged f b r) = latch r"
  by (simp_all add: flagged_def inv_queues_def inv_clock_def inv_hist_def inv_order_def
      in_below_K_def in_at_above_K_def tracked_def)

lemma unat_inc: "unat (w::size_t) < unat (v::size_t) \<Longrightarrow> unat (w + 1) = Suc (unat w)"
proof -
  assume "unat w < unat v"
  then have "w < v" by (simp add: word_less_nat_alt)
  then have "1 + w \<noteq> 0" using max_word_wrap [of w] by (auto simp: add.commute)
  then have "unat (1 + w) = Suc (unat w)" by (rule unatSuc)
  then show ?thesis by (simp add: add.commute)
qed

lemma flagged_inv_sizes:
  assumes "inv_sizes r"
  shows "inv_sizes (flagged f b r)"
proof (cases "recorded_cnt r f = 0 \<or> evictable r f = b")
  case True
  with assms show ?thesis by (simp add: flagged_def)
next
  case False
  then have tr: "tracked r f" and ne: "evictable r f \<noteq> b" by (simp_all add: tracked_def)
  let ?T = "{g. tracked r g}"
  let ?E = "{g. tracked r g \<and> evictable r g}"
  let ?P = "{g. tracked r g \<and> \<not> evictable r g}"
  have fin: "finite ?T" and cu: "unat (curr_size r) = card ?E"
    and mx: "unat (max_size r) + card ?P = unat (replacer_size r)"
    and le: "card ?T \<le> unat (replacer_size r)"
    using assms by (simp_all add: inv_sizes_def)
  have finE: "finite ?E" and finP: "finite ?P" using fin by simp_all
  have split: "card ?E + card ?P = card ?T"
  proof -
    have "?E \<union> ?P = ?T" "?E \<inter> ?P = {}" by auto
    then show ?thesis using finE finP by (metis card_Un_disjoint)
  qed
  show ?thesis
  proof (cases b)
    case True
    with ne have nev: "\<not> evictable r f" by simp
    let ?r' = "r\<lparr>evictable := (evictable r)(f := True), max_size := max_size r + 1,
          curr_size := curr_size r + 1\<rparr>"
    have r': "flagged f b r = ?r'" using False True by (simp add: flagged_def)
    have fP: "f \<in> ?P" and fE: "f \<notin> ?E" using tr nev by simp_all
    have e1: "{g. tracked ?r' g \<and> evictable ?r' g} = insert f ?E"
      using tr by (auto simp: tracked_def)
    have e2: "{g. tracked ?r' g \<and> \<not> evictable ?r' g} = ?P - {f}"
      by (auto simp: tracked_def)
    have e3: "{g. tracked ?r' g} = ?T" by (auto simp: tracked_def)
    have cP: "0 < card ?P" using finP fP by (auto simp: card_gt_0_iff)
    have "unat (max_size r) < unat (replacer_size r)" using mx cP by linarith
    then have u1: "unat (max_size r + 1) = Suc (unat (max_size r))" by (rule unat_inc)
    have "unat (curr_size r) < unat (replacer_size r)" using cu split le cP by linarith
    then have u2: "unat (curr_size r + 1) = Suc (unat (curr_size r))" by (rule unat_inc)
    have c2: "card (?P - {f}) = card ?P - 1" using finP fP by simp
    show ?thesis
      unfolding r' inv_sizes_def e1 e2 e3
      using fin finE fE u1 u2 c2 cP cu mx le by simp
  next
    case nb: False
    with ne have ev: "evictable r f" by simp
    let ?r' = "r\<lparr>evictable := (evictable r)(f := False), max_size := max_size r - 1,
          curr_size := curr_size r - 1\<rparr>"
    have r': "flagged f b r = ?r'" using False nb by (simp add: flagged_def)
    have fP: "f \<notin> ?P" and fE: "f \<in> ?E" using tr ev by simp_all
    have e1: "{g. tracked ?r' g \<and> evictable ?r' g} = ?E - {f}"
      by (auto simp: tracked_def)
    have e2: "{g. tracked ?r' g \<and> \<not> evictable ?r' g} = insert f ?P"
      using tr by (auto simp: tracked_def)
    have e3: "{g. tracked ?r' g} = ?T" by (auto simp: tracked_def)
    have cE: "0 < card ?E" using finE fE by (auto simp: card_gt_0_iff)
    then have "curr_size r \<noteq> 0" using cu by auto
    then have u2: "unat (curr_size r - 1) = unat (curr_size r) - 1" by (simp add: unat_minus_one)
    have "0 < unat (max_size r)" using mx split le cE by linarith
    then have "max_size r \<noteq> 0" by auto
    then have u1: "unat (max_size r - 1) = unat (max_size r) - 1" by (simp add: unat_minus_one)
    have c1: "card (?E - {f}) = card ?E - 1" using finE fE by simp
    show ?thesis
      unfolding r' inv_sizes_def e1 e2 e3
      using fin finP fP u1 u2 c1 cE cu mx le split by simp
  qed
qed

lemma flagged_inv: "replacer_inv r \<Longrightarrow> replacer_inv (flagged f b r)"
  by (simp add: replacer_inv_def flagged_other flagged_inv_sizes)


lemma cnt_inc:
  assumes "inv_clock r" "current_timestamp r \<noteq> - 1"
  shows "unat (recorded_cnt r f + 1) = Suc (unat (recorded_cnt r f))"
proof -
  have "recorded_cnt r f \<le> current_timestamp r" using assms by (simp add: inv_clock_def)
  moreover have "current_timestamp r < - 1" using assms(2) by (simp add: word_order.not_eq_extremum)
  ultimately have "unat (recorded_cnt r f) < unat (- 1 :: size_t)"
    by (simp add: word_less_nat_alt word_le_nat_alt)
  then show ?thesis by (rule unat_inc)
qed

lemma RecordAccess_result:
  assumes nl: "\<not> latch r" and q: "inv_queues r" and h: "inv_hist r" and c: "inv_clock r"
    and ts: "current_timestamp r \<noteq> - 1"
  shows "(uint (replacer_size r) < f \<and> RecordAccess r f = (Throws, r)) \<or>
         completed (RecordAccess r f) = None \<or>
         (\<not> uint (replacer_size r) < f \<and> RecordAccess r f = (Returns (), accessed f r) \<and>
          lru_k r \<noteq> 0 \<and> (recorded_cnt r f = 0 \<longrightarrow> curr_size r \<noteq> max_size r))"
proof (cases "uint (replacer_size r) < f")
  case True
  with nl show ?thesis by (simp add: RecordAccess_def RecordAccess_body_def lock_guard_def)
next
  case inr: False
  note u = cnt_inc [OF c ts, of f]
  have d: "distinct (new_frame r)" "distinct (map fst (cache_frame r))"
    using q by (simp_all add: inv_queues_def)
  have len: "length (hist r f) = min (unat (recorded_cnt r f)) (unat (lru_k r))"
    using h by (simp add: inv_hist_def)
  show ?thesis
  proof (cases "recorded_cnt r f = 0")
    case z: True
    then have hn: "hist r f = []" using len by simp
    have nq: "f \<notin> set (new_frame r)" "f \<notin> fst ` set (cache_frame r)"
      using q z by (auto simp: inv_queues_def in_below_K_def in_at_above_K_def tracked_def)
    show ?thesis
    proof (cases "curr_size r = max_size r")
      case True
      with nl inr z show ?thesis
        by (simp add: RecordAccess_def RecordAccess_body_def lock_guard_def first_access_def
            Evict_def completed_def Let_def)
    next
      case ne: False
      consider (k0) "lru_k r = 0" | (k1) "lru_k r = 1" | (k2) "1 < lru_k r"
        by (metis word_less_1 linorder_neqE_linordered_idom not_less_iff_gr_or_eq word_neq_0_conv)
      then show ?thesis
      proof cases
        case k0
        with nl inr z ne hn nq show ?thesis
          by (simp add: RecordAccess_def RecordAccess_body_def lock_guard_def first_access_def
            requeue_def erase_cache_notin completed_def Let_def)
      next
        case k1
        with nl inr z ne hn nq show ?thesis
          by (simp add: RecordAccess_def RecordAccess_body_def lock_guard_def first_access_def
            requeue_def erase_new_def accessed_def filter_fst_absent Let_def)
      next
        case k2
        then have "lru_k r \<noteq> 1" "lru_k r \<noteq> 0" "\<not> lru_k r < 1" by auto
        with k2 nl inr z ne hn nq show ?thesis
          by (simp add: RecordAccess_def RecordAccess_body_def lock_guard_def first_access_def
            requeue_def accessed_def Let_def)
      qed
    qed
  next
    case nz: False
    then have n1: "recorded_cnt r f + 1 \<noteq> 1" by simp
    have up: "0 < unat (recorded_cnt r f)" using nz by (simp add: unat_gt_0)
    have fa: "first_access (recorded_cnt r f + 1) f r' = (Returns (), r')" for r'
      using n1 by (simp add: first_access_def)
    consider (eq) "recorded_cnt r f + 1 = lru_k r" | (gt) "lru_k r < recorded_cnt r f + 1"
      | (lt) "recorded_cnt r f + 1 < lru_k r"
      by fastforce
    then show ?thesis
    proof cases
      case eq
      then have "unat (lru_k r) = Suc (unat (recorded_cnt r f))" using u by simp
      then have lt: "recorded_cnt r f < lru_k r" by (simp add: word_less_nat_alt)
      then have "f \<in> set (new_frame r)"
        using q nz by (auto simp: inv_queues_def in_below_K_def tracked_def)
      then have en: "erase_new f (new_frame r) = Some (removeAll f (new_frame r))"
        and fc: "filter (\<lambda>e. fst e \<noteq> f) (cache_frame r) = cache_frame r"
        using d below_K_D [OF q, of f] by (simp_all add: erase_new_in filter_fst_absent)
      have k0: "lru_k r \<noteq> 0" using lt by auto
      obtain x xs where hx: "hist r f = x # xs"
        using len up lt by (cases "hist r f") (auto simp: word_less_nat_alt)
      show ?thesis
        using nl inr nz eq en fc k0 hx fa
        by (simp add: RecordAccess_def RecordAccess_body_def lock_guard_def
            requeue_def accessed_def Let_def)
    next
      case gt
      then have "unat (lru_k r) < Suc (unat (recorded_cnt r f))"
        using u by (simp add: word_less_nat_alt)
      then have ge: "lru_k r \<le> recorded_cnt r f" by (simp add: word_le_nat_alt)
      then have "f \<in> fst ` set (cache_frame r)"
        using q nz by (auto simp: inv_queues_def in_at_above_K_def tracked_def)
      then have ec: "erase_cache f (cache_frame r) = Some (filter (\<lambda>e. fst e \<noteq> f) (cache_frame r))"
        and fn: "removeAll f (new_frame r) = new_frame r"
        using d at_above_K_D [OF q, of f] by (simp_all add: erase_cache_in)
      have lk: "length (hist r f) = unat (lru_k r)"
        using len ge by (simp add: word_le_nat_alt)
      have ne: "recorded_cnt r f + 1 \<noteq> lru_k r" "\<not> recorded_cnt r f + 1 < lru_k r"
        using gt by auto
      show ?thesis
      proof (cases "lru_k r = 0")
        case True
        then have "hist r f = []" using lk by simp
        with nl inr nz gt ne ec fa show ?thesis
          by (simp add: RecordAccess_def RecordAccess_body_def lock_guard_def
            requeue_def completed_def Let_def)
      next
        case False
        then obtain x xs where hx: "hist r f = x # xs"
          using lk by (cases "hist r f") (auto simp: unat_eq_zero)
        obtain y ys where hy: "xs @ [current_timestamp r + 1] = y # ys"
          by (cases xs) auto
        show ?thesis
          using nl inr nz gt ne ec fn fa False hx hy
          by (simp add: RecordAccess_def RecordAccess_body_def lock_guard_def
            requeue_def accessed_def Let_def)
      qed
    next
      case lt
      then have ne: "recorded_cnt r f + 1 \<noteq> lru_k r" "\<not> lru_k r < recorded_cnt r f + 1"
        "lru_k r \<noteq> 0"
        by auto
      show ?thesis
        using nl inr nz lt ne fa
        by (simp add: RecordAccess_def RecordAccess_body_def lock_guard_def
            requeue_def accessed_def Let_def)
    qed
  qed
qed


lemma set_upper_bound_insert [simp]: "set (upper_bound_insert x q) = insert x (set q)"
  by (induction q) auto

lemma distinct_fst_upper_bound_insert:
  "distinct (map fst q) \<Longrightarrow> fst x \<notin> fst ` set q \<Longrightarrow> distinct (map fst (upper_bound_insert x q))"
  by (induction q) auto

lemma sorted_upper_bound_insert:
  "sorted (map snd q) \<Longrightarrow> sorted (map snd (upper_bound_insert x q))"
  by (induction q) (auto simp: CmpTimestamp_def)

lemma accessed_fields [simp]:
  "current_timestamp (accessed f r) = current_timestamp r + 1"
  "recorded_cnt (accessed f r) = (recorded_cnt r)(f := recorded_cnt r f + 1)"
  "max_size (accessed f r) = max_size r"
  "replacer_size (accessed f r) = replacer_size r"
  "lru_k (accessed f r) = lru_k r"
  "latch (accessed f r) = latch r"
  "curr_size (accessed f r) = (if recorded_cnt r f = 0 then curr_size r + 1 else curr_size r)"
  "evictable (accessed f r) =
     (if recorded_cnt r f = 0 then (evictable r)(f := True) else evictable r)"
  by (simp_all add: accessed_def Let_def)

lemma accessed_hist:
  "hist (accessed f r) =
     (hist r)(f := if lru_k r < recorded_cnt r f + 1
                   then tl (hist r f @ [current_timestamp r + 1])
                   else hist r f @ [current_timestamp r + 1])"
  by (simp add: accessed_def Let_def)

lemma accessed_new_frame:
  "new_frame (accessed f r) =
     (if recorded_cnt r f + 1 < lru_k r
      then (if recorded_cnt r f = 0 then f # new_frame r else new_frame r)
      else removeAll f (new_frame r))"
  by (simp add: accessed_def Let_def)

lemma accessed_cache_frame:
  "cache_frame (accessed f r) =
     (if recorded_cnt r f + 1 < lru_k r then cache_frame r
      else upper_bound_insert (f, hd (hist (accessed f r) f))
             (filter (\<lambda>e. fst e \<noteq> f) (cache_frame r)))"
  by (simp add: accessed_def Let_def)

lemma accessed_inv_queues:
  assumes q: "inv_queues r" and c: "inv_clock r" and ts: "current_timestamp r \<noteq> - 1"
  shows "inv_queues (accessed f r)"
proof -
  note u = cnt_inc [OF c ts, of f]
  have d: "distinct (new_frame r)" "distinct (map fst (cache_frame r))"
    and mb: "\<And>g. g \<in> set (new_frame r) \<longleftrightarrow> recorded_cnt r g \<noteq> 0 \<and> recorded_cnt r g < lru_k r"
    and ma: "\<And>g. g \<in> fst ` set (cache_frame r) \<longleftrightarrow> recorded_cnt r g \<noteq> 0 \<and> lru_k r \<le> recorded_cnt r g"
    using q by (simp_all add: inv_queues_def in_below_K_def in_at_above_K_def tracked_def)
  have nz: "recorded_cnt r f + 1 \<noteq> 0" using u by (metis Zero_not_Suc unat_0)
  have lt_iff: "recorded_cnt r f + 1 < lru_k r \<Longrightarrow> recorded_cnt r f < lru_k r"
    using u by (simp add: word_less_nat_alt)
  have ge_iff: "\<not> recorded_cnt r f + 1 < lru_k r \<longleftrightarrow> lru_k r \<le> recorded_cnt r f + 1"
    by auto
  have d1: "distinct (new_frame (accessed f r))"
    using d mb [of f] by (auto simp: accessed_new_frame intro: distinct_removeAll)
  have d2: "distinct (map fst (cache_frame (accessed f r)))"
    using d by (auto simp: accessed_cache_frame distinct_map_filter
        intro!: distinct_fst_upper_bound_insert)
  have m1: "g \<in> set (new_frame (accessed f r)) \<longleftrightarrow>
      recorded_cnt (accessed f r) g \<noteq> 0 \<and> recorded_cnt (accessed f r) g < lru_k (accessed f r)" for g
    using mb [of g] mb [of f] nz lt_iff by (auto simp: accessed_new_frame)
  have m2: "g \<in> fst ` set (cache_frame (accessed f r)) \<longleftrightarrow>
      recorded_cnt (accessed f r) g \<noteq> 0 \<and> lru_k (accessed f r) \<le> recorded_cnt (accessed f r) g" for g
  proof (cases "g = f")
    case True
    show ?thesis
    proof (cases "recorded_cnt r f + 1 < lru_k r")
      case lt: True
      then have "f \<notin> fst ` set (cache_frame r)" using ma [of f] lt_iff by auto
      with True lt nz show ?thesis by (auto simp: accessed_cache_frame)
    next
      case False
      with True nz show ?thesis by (auto simp: accessed_cache_frame)
    qed
  next
    case False
    have "g \<in> fst ` set (filter (\<lambda>e. fst e \<noteq> f) (cache_frame r)) \<longleftrightarrow> g \<in> fst ` set (cache_frame r)"
      using False by force
    with False ma [of g] show ?thesis
      by (auto simp: accessed_cache_frame simp del: set_filter)
  qed
  show ?thesis
    unfolding inv_queues_def in_below_K_def in_at_above_K_def tracked_def
    using d1 d2 m1 m2 by blast
qed


lemma unat_inc_max: "(w::size_t) \<noteq> - 1 \<Longrightarrow> unat (w + 1) = Suc (unat w)"
proof -
  assume "w \<noteq> - 1"
  then have "1 + w \<noteq> 0" using max_word_wrap [of w] by (auto simp: add.commute)
  then have "unat (1 + w) = Suc (unat w)" by (rule unatSuc)
  then show ?thesis by (simp add: add.commute)
qed

lemma accessed_inv_clock:
  assumes c: "inv_clock r" and ts: "current_timestamp r \<noteq> - 1"
  shows "inv_clock (accessed f r)"
proof -
  note u = cnt_inc [OF c ts, of f]
  note v = unat_inc_max [OF ts]
  have le: "current_timestamp r \<le> current_timestamp r + 1"
    using v by (simp add: word_le_nat_alt)
  have c1: "recorded_cnt r g \<le> current_timestamp r"
    and c2: "t \<in> set (hist r g) \<Longrightarrow> t \<le> current_timestamp r" for g t
    using c by (auto simp: inv_clock_def)
  have a: "recorded_cnt (accessed f r) g \<le> current_timestamp (accessed f r)" for g
  proof (cases "g = f")
    case True
    have "unat (recorded_cnt r f) \<le> unat (current_timestamp r)"
      using c1 [of f] by (simp add: word_le_nat_alt)
    then show ?thesis using True u v by (simp add: word_le_nat_alt)
  next
    case False
    then show ?thesis using c1 [of g] le by simp
  qed
  have b: "t \<le> current_timestamp (accessed f r)" if "t \<in> set (hist (accessed f r) g)" for g t
  proof (cases "g = f")
    case True
    have "set (tl (hist r f @ [current_timestamp r + 1])) \<subseteq> set (hist r f @ [current_timestamp r + 1])"
      by (cases "hist r f @ [current_timestamp r + 1]") auto
    then have "t \<in> set (hist r f) \<or> t = current_timestamp r + 1"
      using that True by (auto simp: accessed_hist split: if_splits)
    then show ?thesis using c2 [of t f] le by auto
  next
    case False
    then show ?thesis using that c2 [of t g] le by (auto simp: accessed_hist)
  qed
  show ?thesis unfolding inv_clock_def using a b by blast
qed

lemma accessed_inv_hist:
  assumes h: "inv_hist r" and c: "inv_clock r" and ts: "current_timestamp r \<noteq> - 1"
  shows "inv_hist (accessed f r)"
proof -
  note u = cnt_inc [OF c ts, of f]
  have len: "length (hist r g) = min (unat (recorded_cnt r g)) (unat (lru_k r))" for g
    using h by (simp add: inv_hist_def)
  have "length (hist (accessed f r) g) =
        min (unat (recorded_cnt (accessed f r) g)) (unat (lru_k (accessed f r)))" for g
    using len [of g] len [of f] u
    by (auto simp: accessed_hist word_less_nat_alt)
  then show ?thesis unfolding inv_hist_def by blast
qed


lemma tracked_hist_nonempty:
  assumes "inv_hist r" "recorded_cnt r g \<noteq> 0" "lru_k r \<noteq> 0"
  shows "hist r g \<noteq> []"
proof -
  have "length (hist r g) = min (unat (recorded_cnt r g)) (unat (lru_k r))"
    using assms by (simp add: inv_hist_def)
  moreover have "0 < unat (recorded_cnt r g)" "0 < unat (lru_k r)"
    using assms by (simp_all add: unat_gt_0)
  ultimately show ?thesis by auto
qed

lemma accessed_inv_order:
  assumes o: "inv_order r" and q: "inv_queues r" and h: "inv_hist r" and c: "inv_clock r"
    and ts: "current_timestamp r \<noteq> - 1" and k: "lru_k r \<noteq> 0"
  shows "inv_order (accessed f r)"
proof -
  note u = cnt_inc [OF c ts, of f]
  note v = unat_inc_max [OF ts]
  let ?R = "\<lambda>a b. hd (hist r b) < hd (hist r a)"
  let ?R' = "\<lambda>a b. hd (hist (accessed f r) b) < hd (hist (accessed f r) a)"
  have so: "sorted_wrt ?R (new_frame r)" and sc: "sorted (map snd (cache_frame r))"
    and ce: "\<And>e. e \<in> set (cache_frame r) \<Longrightarrow> snd e = hd (hist r (fst e))"
    using o by (auto simp: inv_order_def)
  have mb: "\<And>g. g \<in> set (new_frame r) \<longleftrightarrow> recorded_cnt r g \<noteq> 0 \<and> recorded_cnt r g < lru_k r"
    and ma: "\<And>g. g \<in> fst ` set (cache_frame r) \<longleftrightarrow> recorded_cnt r g \<noteq> 0 \<and> lru_k r \<le> recorded_cnt r g"
    using q by (simp_all add: inv_queues_def in_below_K_def in_at_above_K_def tracked_def)
  have other: "hist (accessed f r) g = hist r g" if "g \<noteq> f" for g
    using that by (simp add: accessed_hist)
  have lt_imp: "recorded_cnt r f + 1 < lru_k r \<Longrightarrow> recorded_cnt r f < lru_k r"
    using u by (simp add: word_less_nat_alt)
  have below_lt: "hd (hist r g) < current_timestamp r + 1" if "g \<in> set (new_frame r)" for g
  proof -
    have "hist r g \<noteq> []" using that mb [of g] tracked_hist_nonempty [OF h _ k] by simp
    then have "hd (hist r g) \<in> set (hist r g)" by simp
    then have "hd (hist r g) \<le> current_timestamp r" using c by (auto simp: inv_clock_def)
    then show ?thesis using v by (simp add: word_less_nat_alt word_le_nat_alt)
  qed
  have new: "sorted_wrt ?R' (new_frame (accessed f r))"
  proof (cases "recorded_cnt r f + 1 < lru_k r")
    case lt: True
    show ?thesis
    proof (cases "recorded_cnt r f = 0")
      case True
      then have fn: "f \<notin> set (new_frame r)" using mb [of f] by simp
      have "length (hist r f) = min (unat (recorded_cnt r f)) (unat (lru_k r))"
        using h by (simp add: inv_hist_def)
      then have hf: "hist r f = []" using True by simp
      have "sorted_wrt ?R' (new_frame r)"
        using so fn by (rule_tac sorted_wrt_mono_rel [where P = ?R]) (auto simp: accessed_hist)
      moreover have "\<forall>g \<in> set (new_frame r). ?R' f g"
        using below_lt fn hf lt by (auto simp: accessed_hist)
      ultimately show ?thesis using lt True by (simp add: accessed_new_frame)
    next
      case False
      then have "hist r f \<noteq> []" using tracked_hist_nonempty [OF h _ k] by simp
      then have "hd (hist (accessed f r) g) = hd (hist r g)" for g
        using lt by (auto simp: accessed_hist)
      then show ?thesis using so lt False by (simp add: accessed_new_frame)
    qed
  next
    case False
    have "sorted_wrt ?R (removeAll f (new_frame r))"
      using so by (simp add: removeAll_filter_not_eq sorted_wrt_filter)
    then have "sorted_wrt ?R' (removeAll f (new_frame r))"
      by (rule_tac sorted_wrt_mono_rel [where P = ?R]) (auto simp: accessed_hist)
    then show ?thesis using False by (simp add: accessed_new_frame)
  qed
  have cache: "sorted (map snd (cache_frame (accessed f r))) \<and>
     (\<forall>e \<in> set (cache_frame (accessed f r)). snd e = hd (hist (accessed f r) (fst e)))"
  proof (cases "recorded_cnt r f + 1 < lru_k r")
    case True
    then have "f \<notin> fst ` set (cache_frame r)" using ma [of f] lt_imp by auto
    then have "\<And>e. e \<in> set (cache_frame r) \<Longrightarrow> fst e \<noteq> f" by auto
    then show ?thesis using True sc ce by (simp add: accessed_cache_frame other)
  next
    case False
    have "sorted (map snd (filter (\<lambda>e. fst e \<noteq> f) (cache_frame r)))"
      using sc by (simp add: sorted_map sorted_wrt_filter)
    then have "sorted (map snd (cache_frame (accessed f r)))"
      using False by (simp add: accessed_cache_frame sorted_upper_bound_insert)
    moreover have "\<forall>e \<in> set (cache_frame (accessed f r)). snd e = hd (hist (accessed f r) (fst e))"
      using False ce by (auto simp: accessed_cache_frame other)
    ultimately show ?thesis by blast
  qed
  show ?thesis unfolding inv_order_def using new cache by blast
qed

lemma accessed_inv_sizes:
  assumes s: "inv_sizes r" and cap: "recorded_cnt r f = 0 \<longrightarrow> curr_size r \<noteq> max_size r"
    and c: "inv_clock r" and ts: "current_timestamp r \<noteq> - 1"
  shows "inv_sizes (accessed f r)"
proof -
  note u = cnt_inc [OF c ts, of f]
  have nz: "recorded_cnt r f + 1 \<noteq> 0" using u by (metis Zero_not_Suc unat_0)
  let ?T = "{g. tracked r g}"
  let ?E = "{g. tracked r g \<and> evictable r g}"
  let ?P = "{g. tracked r g \<and> \<not> evictable r g}"
  have fin: "finite ?T" and cu: "unat (curr_size r) = card ?E"
    and mx: "unat (max_size r) + card ?P = unat (replacer_size r)"
    and le: "card ?T \<le> unat (replacer_size r)"
    using s by (simp_all add: inv_sizes_def)
  have finE: "finite ?E" and finP: "finite ?P" using fin by simp_all
  have split: "card ?E + card ?P = card ?T"
  proof -
    have "?E \<union> ?P = ?T" "?E \<inter> ?P = {}" by auto
    then show ?thesis using finE finP by (metis card_Un_disjoint)
  qed
  show ?thesis
  proof (cases "recorded_cnt r f = 0")
    case True
    then have nt: "f \<notin> ?T" "f \<notin> ?E" "f \<notin> ?P" by (simp_all add: tracked_def)
    have e1: "{g. tracked (accessed f r) g \<and> evictable (accessed f r) g} = insert f ?E"
      using True nz by (auto simp: tracked_def)
    have e2: "{g. tracked (accessed f r) g \<and> \<not> evictable (accessed f r) g} = ?P"
      using True nz by (auto simp: tracked_def)
    have e3: "{g. tracked (accessed f r) g} = insert f ?T"
      using True nz by (auto simp: tracked_def)
    have "unat (curr_size r) \<le> unat (max_size r)" using cu mx split le by linarith
    moreover have "unat (curr_size r) \<noteq> unat (max_size r)"
      using cap True by (simp add: word_unat_eq_iff)
    ultimately have lt: "unat (curr_size r) < unat (max_size r)" by linarith
    then have u2: "unat (curr_size r + 1) = Suc (unat (curr_size r))" by (rule unat_inc)
    have c3: "Suc (card ?T) \<le> unat (replacer_size r)" using lt cu mx split by linarith
    show ?thesis
      unfolding inv_sizes_def e1 e2 e3
      using True fin finE nt u2 cu mx c3 by simp
  next
    case False
    have e1: "{g. tracked (accessed f r) g \<and> evictable (accessed f r) g} = ?E"
      using False nz by (auto simp: tracked_def)
    have e2: "{g. tracked (accessed f r) g \<and> \<not> evictable (accessed f r) g} = ?P"
      using False nz by (auto simp: tracked_def)
    have e3: "{g. tracked (accessed f r) g} = ?T"
      using False nz by (auto simp: tracked_def)
    show ?thesis
      unfolding inv_sizes_def e1 e2 e3 using False fin cu mx le by simp
  qed
qed

lemma accessed_inv:
  assumes "replacer_inv r" "current_timestamp r \<noteq> - 1" "lru_k r \<noteq> 0"
    "recorded_cnt r f = 0 \<longrightarrow> curr_size r \<noteq> max_size r"
  shows "replacer_inv (accessed f r)"
  using assms unfolding replacer_inv_def
  by (simp add: accessed_inv_queues accessed_inv_clock accessed_inv_hist accessed_inv_order
      accessed_inv_sizes)

lemma init_inv: "replacer_inv (LRUKReplacer n k)"
  by (simp add: replacer_inv_def inv_queues_def inv_clock_def inv_hist_def inv_order_def
      inv_sizes_def in_below_K_def in_at_above_K_def tracked_def LRUKReplacer_def)

lemma completed_Some:
  "completed x = Some r' \<longleftrightarrow> (\<exists>v. x = (Returns v, r')) \<or> x = (Throws, r')"
  by (cases x; cases "fst x") (auto simp: completed_def)

text \<open>What one completed call does to the counts, and that it keeps the invariant.\<close>

lemma step_effect:
  assumes inv: "replacer_inv r" and ts: "current_timestamp r \<noteq> - 1" and st: "step r x = Some r'"
  shows "replacer_inv r' \<and> lru_k r' = lru_k r \<and> replacer_size r' = replacer_size r \<and>
         unat (current_timestamp r') \<le> Suc (unat (current_timestamp r)) \<and>
         (\<forall>g. recorded_cnt r' g = recorded_cnt r g \<or> recorded_cnt r' g = 0 \<or>
              (x = RecordAccessOp g \<and> recorded_cnt r' g = recorded_cnt r g + 1 \<and>
               unat (recorded_cnt r' g) = Suc (unat (recorded_cnt r g))))"
proof -
  have nl: "\<not> latch r" and q: "inv_queues r" and h: "inv_hist r" and c: "inv_clock r"
    using inv by (simp_all add: replacer_inv_def)
  show ?thesis
  proof (cases x)
    case (RecordAccessOp f)
    from RecordAccess_result [OF nl q h c ts, of f] st RecordAccessOp
    consider "r' = r" | "r' = accessed f r" "lru_k r \<noteq> 0"
        "recorded_cnt r f = 0 \<longrightarrow> curr_size r \<noteq> max_size r"
      by (auto simp: completed_def)
    then show ?thesis
    proof cases
      case 1
      with inv show ?thesis by simp
    next
      case 2
      with inv ts have "replacer_inv r'" by (simp add: accessed_inv)
      moreover have "unat (current_timestamp r') = Suc (unat (current_timestamp r))"
        using 2 unat_inc_max [OF ts] by simp
      ultimately show ?thesis
        using 2 RecordAccessOp cnt_inc [OF c ts, of f] by simp
    qed
  next
    case EvictOp
    from Evict_result [OF nl q] st EvictOp
    consider "r' = r" | f where "r' = untrack f r" "tracked r f" "evictable r f"
      by (auto simp: completed_def)
    then show ?thesis
    proof cases
      case 1
      with inv show ?thesis by simp
    next
      case 2
      with inv show ?thesis by (simp add: untrack_inv)
    qed
  next
    case (SetEvictableOp f b)
    with st nl have "r' = flagged f b r" by (simp add: SetEvictable_result completed_def)
    moreover have "recorded_cnt (flagged f b r) = recorded_cnt r" "lru_k (flagged f b r) = lru_k r"
      "replacer_size (flagged f b r) = replacer_size r"
      "current_timestamp (flagged f b r) = current_timestamp r"
      by (simp_all add: flagged_def)
    ultimately show ?thesis using inv by (simp add: flagged_inv)
  next
    case (RemoveOp f)
    with st Remove_result [OF nl q, of f]
    consider "r' = r" | "r' = untrack f r" "tracked r f" "evictable r f"
      by (auto simp: completed_def tracked_def split: if_splits)
    then show ?thesis
    proof cases
      case 1
      with inv show ?thesis by simp
    next
      case 2
      with inv show ?thesis by (simp add: untrack_inv)
    qed
  next
    case SizeOp
    with st inv show ?thesis by simp
  qed
qed

lemma run_inv:
  "replacer_inv r \<Longrightarrow> unat (current_timestamp r) + length ops < 2 ^ 64 \<Longrightarrow>
   run r ops = Some r' \<Longrightarrow>
   replacer_inv r' \<and> lru_k r' = lru_k r \<and> replacer_size r' = replacer_size r \<and>
   unat (current_timestamp r') \<le> unat (current_timestamp r) + length ops"
proof (induction ops arbitrary: r)
  case Nil
  then show ?case by simp
next
  case (Cons x xs)
  from Cons.prems(3) obtain r1 where s: "step r x = Some r1" and rn: "run r1 xs = Some r'"
    by (auto split: option.splits)
  have "unat (current_timestamp r) < 2 ^ 64 - 1" using Cons.prems(2) by simp
  moreover have "unat (- 1 :: size_t) = 2 ^ 64 - 1"
    by (simp add: unsigned_minus_1_eq_mask mask_eq_exp_minus_1)
  ultimately have ts: "current_timestamp r \<noteq> - 1"
    by auto
  note e = step_effect [OF Cons.prems(1) ts s]
  then have "unat (current_timestamp r1) + length xs < 2 ^ 64"
    using Cons.prems(2) by simp
  with Cons.IH [of r1] e rn show ?case by simp
qed

lemma reachable_inv:
  assumes "run (LRUKReplacer n k) ops = Some r" "length ops < 2 ^ 64"
  shows "replacer_inv r \<and> lru_k r = k \<and> replacer_size r = n \<and>
         unat (current_timestamp r) \<le> length ops"
  using run_inv [OF init_inv _ assms(1)] assms(2) by (simp add: LRUKReplacer_def)


section \<open>Eviction order, queue membership and Remove\<close>

lemma find_append:
  "find P (xs @ ys) = (case find P xs of None \<Rightarrow> find P ys | Some x \<Rightarrow> Some x)"
  by (induction xs) auto

lemma find_rev_last:
  "find P (rev xs) = Some x \<Longrightarrow> sorted_wrt R xs \<Longrightarrow> y \<in> set xs \<Longrightarrow> P y \<Longrightarrow> y \<noteq> x \<Longrightarrow> R y x"
proof (induction xs)
  case Nil
  then show ?case by simp
next
  case (Cons a xs)
  show ?case
  proof (cases "find P (rev xs)")
    case None
    then have "\<forall>z \<in> set xs. \<not> P z" by (auto simp: find_None_iff)
    moreover from None Cons.prems(1) have "x = a" by (auto simp: find_append split: if_splits)
    ultimately show ?thesis using Cons.prems by auto
  next
    case (Some z)
    with Cons.prems(1) have zx: "z = x" by (simp add: find_append)
    then have "x \<in> set xs" using Some find_Some_D by fastforce
    then show ?thesis using Cons Some zx by auto
  qed
qed

lemma find_first_least:
  "find P xs = Some x \<Longrightarrow> sorted (map snd xs) \<Longrightarrow> y \<in> set xs \<Longrightarrow> P y \<Longrightarrow> snd x \<le> snd y"
  by (induction xs) (auto split: if_splits)

lemma Evict_order_inv:
  assumes inv: "replacer_inv r"
  shows "(if \<exists>f. below_K_evictable r f then
            \<exists>f. fst (Evict r) = Returns (Some f) \<and> below_K_evictable r f \<and>
                (\<forall>g. below_K_evictable r g \<and> g \<noteq> f \<longrightarrow>
                     history_front r f < history_front r g)
          else if \<exists>f. at_above_K_evictable r f then
            \<exists>f. fst (Evict r) = Returns (Some f) \<and> at_above_K_evictable r f \<and>
                (\<forall>g. at_above_K_evictable r g \<longrightarrow> history_front r f \<le> history_front r g)
          else fst (Evict r) = Returns None)"
proof -
  have nl: "\<not> latch r" and q: "inv_queues r" and o: "inv_order r" and s: "inv_sizes r"
    using inv by (simp_all add: replacer_inv_def)
  have mb: "\<And>g. g \<in> set (new_frame r) \<longleftrightarrow> tracked r g \<and> recorded_cnt r g < lru_k r"
    and ma: "\<And>g. g \<in> fst ` set (cache_frame r) \<longleftrightarrow> tracked r g \<and> lru_k r \<le> recorded_cnt r g"
    using q by (simp_all add: inv_queues_def in_below_K_def in_at_above_K_def)
  have so: "sorted_wrt (\<lambda>a b. hd (hist r b) < hd (hist r a)) (new_frame r)"
    and sc: "sorted (map snd (cache_frame r))"
    and ce: "\<And>e. e \<in> set (cache_frame r) \<Longrightarrow> snd e = hd (hist r (fst e))"
    using o by (auto simp: inv_order_def)
  have fin: "finite {g. tracked r g \<and> evictable r g}" using s by (simp add: inv_sizes_def)
  have size0: "curr_size r = 0 \<longleftrightarrow> \<not> (\<exists>f. tracked r f \<and> evictable r f)"
  proof -
    have "curr_size r = 0 \<longleftrightarrow> card {g. tracked r g \<and> evictable r g} = 0"
      using s by (simp add: inv_sizes_def unat_eq_zero [symmetric])
    then show ?thesis using fin by auto
  qed
  show ?thesis
  proof (cases "\<exists>f. below_K_evictable r f")
    case True
    then obtain g where g: "g \<in> set (new_frame r)" "evictable r g" "tracked r g"
      using mb by (auto simp: below_K_evictable_def)
    then have nz: "curr_size r \<noteq> 0" using size0 by auto
    from g obtain f where f: "find (evictable r) (rev (new_frame r)) = Some f"
      by (cases "find (evictable r) (rev (new_frame r))") (auto simp: find_None_iff)
    then have fin: "f \<in> set (new_frame r)" "evictable r f" using find_Some_D by fastforce+
    have res: "fst (Evict r) = Returns (Some f)"
      using nl nz f by (simp add: Evict_def lock_guard_def Evict_body_def Size_def)
    have "history_front r f < history_front r g'" if "below_K_evictable r g'" "g' \<noteq> f" for g'
      using find_rev_last [OF f so, of g'] that mb [of g']
      by (auto simp: below_K_evictable_def history_front_def)
    with True res fin mb [of f] show ?thesis by (auto simp: below_K_evictable_def)
  next
    case nb: False
    then have none: "find (evictable r) (rev (new_frame r)) = None"
      using mb by (auto simp: find_None_iff below_K_evictable_def)
    show ?thesis
    proof (cases "\<exists>f. at_above_K_evictable r f")
      case True
      then obtain g where g: "g \<in> fst ` set (cache_frame r)" "evictable r g" "tracked r g"
        using ma by (auto simp: at_above_K_evictable_def)
      then have nz: "curr_size r \<noteq> 0" using size0 by auto
      from g obtain e where e: "find (\<lambda>e. evictable r (fst e)) (cache_frame r) = Some e"
        by (cases "find (\<lambda>e. evictable r (fst e)) (cache_frame r)") (auto simp: find_None_iff)
      then have ein: "e \<in> set (cache_frame r)" "evictable r (fst e)"
        using find_Some_D by fastforce+
      have res: "fst (Evict r) = Returns (Some (fst e))"
        using nl nz none e by (simp add: Evict_def lock_guard_def Evict_body_def Size_def)
      have "history_front r (fst e) \<le> history_front r g'" if "at_above_K_evictable r g'" for g'
      proof -
        from that ma [of g'] obtain e' where e': "e' \<in> set (cache_frame r)" "fst e' = g'"
          by (auto simp: at_above_K_evictable_def)
        with that have "evictable r (fst e')" by (simp add: at_above_K_evictable_def)
        from find_first_least [OF e sc e'(1)] this have "snd e \<le> snd e'" by simp
        then show ?thesis using ce [OF ein(1)] ce [OF e'(1)] e'(2) by (simp add: history_front_def)
      qed
      moreover have "at_above_K_evictable r (fst e)"
        using ein ma [of "fst e"] by (auto simp: at_above_K_evictable_def)
      ultimately show ?thesis using nb True res by auto
    next
      case na: False
      have "\<not> (\<exists>f. tracked r f \<and> evictable r f)"
        using nb na unfolding below_K_evictable_def at_above_K_evictable_def
        by (meson linorder_not_less)
      then have "curr_size r = 0" using size0 by simp
      then have "fst (Evict r) = Returns None"
        using nl by (simp add: Evict_def lock_guard_def Evict_body_def Size_def)
      with nb na show ?thesis by simp
    qed
  qed
qed


lemma scenario_run:
  "run (LRUKReplacer 3 2) [RecordAccessOp 1, RecordAccessOp 2, RecordAccessOp 3, RecordAccessOp 1]
     = Some scenario"
  by (simp add: scenario_def replacer_eval completed_def)

lemma agrees_init: "agrees (LRUKReplacer n k) nothing_observed"
  by (simp add: agrees_def LRUKReplacer_def nothing_observed_def)

lemma agrees_untrack:
  assumes "agrees r w"
  shows "agrees (untrack f r) (saw_leave f w)"
  using assms unfolding agrees_def saw_leave_def
  by (auto simp: untrack_def)


lemma agrees_flagged:
  assumes "agrees r w"
  shows "agrees (flagged f b r) (saw_flag f b w)"
proof -
  have c: "unat (recorded_cnt r f) = length (access_log w f)" and e: "evictable r = may_evict w"
    using assms by (simp_all add: agrees_def)
  then have z: "recorded_cnt r f = 0 \<longleftrightarrow> access_log w f = []"
    by (simp add: unat_eq_zero [symmetric])
  have "evictable (flagged f b r) = may_evict (saw_flag f b w)"
    using z e by (auto simp: flagged_def saw_flag_def fun_eq_iff)
  moreover have "recorded_cnt (flagged f b r) = recorded_cnt r" "hist (flagged f b r) = hist r"
    "lru_k (flagged f b r) = lru_k r" "current_timestamp (flagged f b r) = current_timestamp r"
    "access_log (saw_flag f b w) = access_log w" "ticks (saw_flag f b w) = ticks w"
    by (simp_all add: flagged_def saw_flag_def)
  ultimately show ?thesis using assms unfolding agrees_def by simp
qed

lemma drop_last_k_snoc:
  "tl (drop (length xs - K) xs @ [x]) = drop (Suc (length xs) - K) (xs @ [x])" if "K \<le> length xs"
proof (cases "K = 0")
  case True
  then show ?thesis by simp
next
  case False
  with that have n: "length xs - K < length xs" by simp
  then have "drop (length xs - K) xs \<noteq> []" by simp
  then have "tl (drop (length xs - K) xs @ [x]) = tl (drop (length xs - K) xs) @ [x]"
    by simp
  also have "\<dots> = drop (Suc (length xs - K)) xs @ [x]" by (simp add: drop_Suc tl_drop)
  also have "\<dots> = drop (Suc (length xs) - K) (xs @ [x])"
    using that False by (simp add: Suc_diff_le)
  finally show ?thesis .
qed

lemma agrees_accessed:
  assumes a: "agrees r w" and c: "inv_clock r" and ts: "current_timestamp r \<noteq> - 1"
    and k: "lru_k r \<noteq> 0"
  shows "agrees (accessed f r) (saw_access f w)"
proof -
  note u = cnt_inc [OF c ts, of f]
  note v = unat_inc_max [OF ts]
  have t: "unat (current_timestamp r) = ticks w"
    and cn: "\<And>g. unat (recorded_cnt r g) = length (access_log w g)"
    and hi: "\<And>g. hist r g =
           map of_nat (drop (length (access_log w g) - unat (lru_k r)) (access_log w g))"
    and ev: "evictable r = may_evict w"
    and le: "\<And>g t. t \<in> set (access_log w g) \<Longrightarrow> t \<le> ticks w"
    and dj: "\<And>g g'. g \<noteq> g' \<Longrightarrow> set (access_log w g) \<inter> set (access_log w g') = {}"
    using a by (auto simp: agrees_def)
  have z: "recorded_cnt r f = 0 \<longleftrightarrow> access_log w f = []"
    using cn [of f] by (simp add: unat_eq_zero [symmetric])
  have tw: "current_timestamp r + 1 = of_nat (ticks w + 1)"
    using t by (metis of_nat_Suc of_nat_unat ucast_id Suc_eq_plus1 add.commute)
  have 1: "unat (current_timestamp (accessed f r)) = ticks (saw_access f w)"
    using v t by (simp add: saw_access_def)
  have 2: "unat (recorded_cnt (accessed f r) g) = length (access_log (saw_access f w) g)" for g
    using u cn by (simp add: saw_access_def)
  have 3: "hist (accessed f r) g =
      map of_nat (drop (length (access_log (saw_access f w) g) - unat (lru_k (accessed f r)))
        (access_log (saw_access f w) g))" for g
  proof (cases "g = f")
    case False
    then show ?thesis using hi [of g] by (simp add: accessed_hist saw_access_def)
  next
    case True
    let ?l = "access_log w f"
    let ?K = "unat (lru_k r)"
    show ?thesis
    proof (cases "lru_k r < recorded_cnt r f + 1")
      case gt: True
      then have kl: "?K \<le> length ?l" using u cn [of f] by (simp add: word_less_nat_alt)
      have "hist (accessed f r) f = tl (hist r f @ [current_timestamp r + 1])"
        using gt by (simp add: accessed_hist)
      also have "\<dots> = tl (map of_nat (drop (length ?l - ?K) ?l @ [ticks w + 1]))"
        unfolding tw using hi [of f] by simp
      also have "\<dots> = map of_nat (tl (drop (length ?l - ?K) ?l @ [ticks w + 1]))"
        by (rule map_tl [symmetric])
      also have "\<dots> = map of_nat (drop (Suc (length ?l) - ?K) (?l @ [ticks w + 1]))"
        using kl by (simp only: drop_last_k_snoc)
      finally show ?thesis using True by (simp add: saw_access_def)
    next
      case ngt: False
      then have kl: "length ?l < ?K" using u cn [of f] by (simp add: word_less_nat_alt)
      have "hist (accessed f r) f = hist r f @ [current_timestamp r + 1]"
        using ngt by (simp add: accessed_hist)
      also have "\<dots> = map of_nat (?l @ [ticks w + 1])"
        unfolding tw using hi [of f] kl by simp
      finally show ?thesis using True kl by (simp add: saw_access_def)
    qed
  qed
  have 4: "evictable (accessed f r) = may_evict (saw_access f w)"
    using z ev by (simp add: saw_access_def)
  have 5: "t \<le> ticks (saw_access f w)" if "t \<in> set (access_log (saw_access f w) g)" for g t
    using that le [of t g] by (cases "g = f") (auto simp: saw_access_def)
  have 6: "set (access_log (saw_access f w) g) \<inter> set (access_log (saw_access f w) g') = {}"
    if "g \<noteq> g'" for g g'
  proof -
    have new: "ticks w + 1 \<notin> set (access_log w h)" for h
      using le [of "ticks w + 1" h] by auto
    show ?thesis
      using that dj [of g g'] new [of g] new [of g']
      by (auto simp: saw_access_def)
  qed
  show ?thesis
    unfolding agrees_def using 1 2 3 4 5 6 k by auto
qed

lemma observe_step:
  "observe (r, w) x = Some (r', w') \<Longrightarrow> step r x = Some r'"
  by (cases x) (auto simp: completed_def split: prod.splits outcome.splits option.splits)

lemma observe_effect:
  assumes inv: "replacer_inv r" and ag: "agrees r w" and ts: "current_timestamp r \<noteq> - 1"
    and ob: "observe (r, w) x = Some (r', w')"
  shows "agrees r' w'"
proof -
  have nl: "\<not> latch r" and q: "inv_queues r" and h: "inv_hist r" and c: "inv_clock r"
    using inv by (simp_all add: replacer_inv_def)
  have cn: "\<And>g. unat (recorded_cnt r g) = length (access_log w g)"
    using ag by (simp add: agrees_def)
  show ?thesis
  proof (cases x)
    case (RecordAccessOp f)
    from RecordAccess_result [OF nl q h c ts, of f] ob RecordAccessOp
    consider "r' = r" "w' = w" | "r' = accessed f r" "w' = saw_access f w" "lru_k r \<noteq> 0"
      by (auto simp: completed_def split: prod.splits outcome.splits)
    then show ?thesis
    proof cases
      case 1
      with ag show ?thesis by simp
    next
      case 2
      with ag c ts show ?thesis by (simp add: agrees_accessed)
    qed
  next
    case EvictOp
    from Evict_result [OF nl q] ob EvictOp
    consider "r' = r" "w' = w" | f where "r' = untrack f r" "w' = saw_leave f w"
      by auto
    then show ?thesis
    proof cases
      case 1
      with ag show ?thesis by simp
    next
      case 2
      with ag show ?thesis by (simp add: agrees_untrack)
    qed
  next
    case (SetEvictableOp f b)
    with ob nl have "r' = flagged f b r" "w' = saw_flag f b w"
      by (simp_all add: SetEvictable_result)
    then show ?thesis using ag by (simp add: agrees_flagged)
  next
    case (RemoveOp f)
    have same: "saw_leave f w = w" if "recorded_cnt r f = 0"
    proof -
      have "access_log w f = []" using that cn [of f] by simp
      then have "(access_log w)(f := []) = access_log w" by (simp add: fun_upd_idem)
      then show ?thesis by (simp add: saw_leave_def)
    qed
    from ob RemoveOp Remove_result [OF nl q, of f]
    consider "r' = r" "w' = w" | "r' = untrack f r" "w' = saw_leave f w"
      using same by (auto split: if_splits)
    then show ?thesis
    proof cases
      case 1
      with ag show ?thesis by simp
    next
      case 2
      with ag show ?thesis by (simp add: agrees_untrack)
    qed
  next
    case SizeOp
    with ob ag show ?thesis by simp
  qed
qed

lemma observe_run_inv:
  "replacer_inv r \<Longrightarrow> agrees r w \<Longrightarrow> unat (current_timestamp r) + length ops < 2 ^ 64 \<Longrightarrow>
   observe_run (r, w) ops = Some (r', w') \<Longrightarrow>
   replacer_inv r' \<and> agrees r' w' \<and> lru_k r' = lru_k r"
proof (induction ops arbitrary: r w)
  case Nil
  then show ?case by simp
next
  case (Cons x xs)
  from Cons.prems(4) obtain r1 w1 where s: "observe (r, w) x = Some (r1, w1)"
    and rn: "observe_run (r1, w1) xs = Some (r', w')"
    by (auto split: option.splits)
  have "unat (current_timestamp r) < 2 ^ 64 - 1" using Cons.prems(3) by simp
  moreover have "unat (- 1 :: size_t) = 2 ^ 64 - 1"
    by (simp add: unsigned_minus_1_eq_mask mask_eq_exp_minus_1)
  ultimately have ts: "current_timestamp r \<noteq> - 1" by auto
  note e = step_effect [OF Cons.prems(1) ts observe_step [OF s]]
  have a: "agrees r1 w1" using Cons.prems(1,2) ts s by (rule observe_effect)
  have "unat (current_timestamp r1) + length xs < 2 ^ 64"
    using e Cons.prems(3) by simp
  with Cons.IH [of r1 w1] e a rn show ?case by simp
qed

lemma of_nat_less_64:
  "a < 2 ^ 64 \<Longrightarrow> b < 2 ^ 64 \<Longrightarrow> (of_nat a :: size_t) < of_nat b \<longleftrightarrow> a < b"
  by (simp add: word_of_nat_less_iff take_bit_nat_eq_self)

lemma of_nat_le_64:
  "a < 2 ^ 64 \<Longrightarrow> b < 2 ^ 64 \<Longrightarrow> (of_nat a :: size_t) \<le> of_nat b \<longleftrightarrow> a \<le> b"
  by (simp add: word_of_nat_less_eq_iff take_bit_nat_eq_self)

lemma agrees_notions:
  assumes "agrees r w"
  shows "below_K_evictable r f = evictable_below_K (unat (lru_k r)) w f"
    and "at_above_K_evictable r f = evictable_at_above_K (unat (lru_k r)) w f"
    and "evictable_below_K (unat (lru_k r)) w f \<Longrightarrow>
           history_front r f = of_nat (first_access_at w f) \<and> first_access_at w f < 2 ^ 64"
    and "evictable_at_above_K (unat (lru_k r)) w f \<Longrightarrow>
           history_front r f = of_nat (kth_recent_access_at (unat (lru_k r)) w f) \<and>
           kth_recent_access_at (unat (lru_k r)) w f < 2 ^ 64 \<and>
           kth_recent_access_at (unat (lru_k r)) w f \<in> set (access_log w f)"
proof -
  let ?K = "unat (lru_k r)"
  let ?l = "access_log w f"
  have t: "unat (current_timestamp r) = ticks w"
    and cn: "unat (recorded_cnt r f) = length ?l"
    and hi: "hist r f = map of_nat (drop (length ?l - ?K) ?l)"
    and ev: "evictable r f = may_evict w f"
    and le: "\<And>t. t \<in> set ?l \<Longrightarrow> t \<le> ticks w"
    and k0: "lru_k r = 0 \<Longrightarrow> ?l = []"
    using assms by (auto simp: agrees_def)
  have "unat (current_timestamp r) < 2 ^ LENGTH(64)" by (rule unsigned_less)
  then have tb: "ticks w < 2 ^ 64" using t by simp
  have z: "recorded_cnt r f \<noteq> 0 \<longleftrightarrow> 0 < length ?l"
    using cn by (simp add: unat_eq_zero [symmetric])
  show "below_K_evictable r f = evictable_below_K ?K w f"
    using z cn ev
    by (simp add: below_K_evictable_def evictable_below_K_def tracked_def access_count_def
        word_less_nat_alt)
  show "at_above_K_evictable r f = evictable_at_above_K ?K w f"
    using z cn ev
    by (simp add: at_above_K_evictable_def evictable_at_above_K_def tracked_def access_count_def
        word_le_nat_alt)
  show "history_front r f = of_nat (first_access_at w f) \<and> first_access_at w f < 2 ^ 64"
    if "evictable_below_K ?K w f"
  proof -
    from that have ne: "?l \<noteq> []" and lt: "length ?l < ?K"
      by (auto simp: evictable_below_K_def access_count_def)
    then have "hist r f = map of_nat ?l" using hi by simp
    then have "history_front r f = of_nat (hd ?l)"
      using ne by (simp add: history_front_def hd_map)
    moreover have "hd ?l \<le> ticks w" using ne le by simp
    ultimately show ?thesis using tb by (simp add: first_access_at_def)
  qed
  show "history_front r f = of_nat (kth_recent_access_at ?K w f) \<and>
        kth_recent_access_at ?K w f < 2 ^ 64 \<and> kth_recent_access_at ?K w f \<in> set ?l"
    if "evictable_at_above_K ?K w f"
  proof -
    from that have ne: "?l \<noteq> []" and ge: "?K \<le> length ?l"
      by (auto simp: evictable_at_above_K_def access_count_def)
    have "lru_k r \<noteq> 0" using k0 ne by auto
    then have "0 < ?K" by (simp add: unat_gt_0)
    with ge ne have n: "length ?l - ?K < length ?l" by simp
    then have "drop (length ?l - ?K) ?l \<noteq> []" by simp
    then have "hd (hist r f) = of_nat (hd (drop (length ?l - ?K) ?l))"
      using hi by (simp add: hd_map)
    also have "\<dots> = of_nat (?l ! (length ?l - ?K))" using n by (simp add: hd_drop_conv_nth)
    finally have 1: "history_front r f = of_nat (kth_recent_access_at ?K w f)"
      by (simp add: history_front_def kth_recent_access_at_def access_count_def)
    have 2: "kth_recent_access_at ?K w f \<in> set ?l"
      using n by (simp add: kth_recent_access_at_def access_count_def)
    then have "kth_recent_access_at ?K w f \<le> ticks w" by (rule le)
    with 1 2 tb show ?thesis by simp
  qed
qed

lemma Evict_order_observed:
  assumes inv: "replacer_inv r" and ag: "agrees r w"
  shows "(if \<exists>f. evictable_below_K (unat (lru_k r)) w f then
            \<exists>f. fst (Evict r) = Returns (Some f) \<and> evictable_below_K (unat (lru_k r)) w f \<and>
                (\<forall>g. evictable_below_K (unat (lru_k r)) w g \<and> g \<noteq> f \<longrightarrow>
                     first_access_at w f < first_access_at w g)
          else if \<exists>f. evictable_at_above_K (unat (lru_k r)) w f then
            \<exists>f. fst (Evict r) = Returns (Some f) \<and> evictable_at_above_K (unat (lru_k r)) w f \<and>
                (\<forall>g. evictable_at_above_K (unat (lru_k r)) w g \<and> g \<noteq> f \<longrightarrow>
                     kth_recent_access_at (unat (lru_k r)) w f
                       < kth_recent_access_at (unat (lru_k r)) w g)
          else fst (Evict r) = Returns None)"
proof -
  let ?K = "unat (lru_k r)"
  note n = agrees_notions [OF ag]
  note eo = Evict_order_inv [OF inv]
  have dj: "\<And>g g'. g \<noteq> g' \<Longrightarrow> set (access_log w g) \<inter> set (access_log w g') = {}"
    using ag by (auto simp: agrees_def)
  show ?thesis
  proof (cases "\<exists>f. evictable_below_K ?K w f")
    case True
    then have "\<exists>f. below_K_evictable r f" by (simp add: n(1))
    with eo obtain f where f: "fst (Evict r) = Returns (Some f)" "below_K_evictable r f"
      and m: "\<And>g. below_K_evictable r g \<Longrightarrow> g \<noteq> f \<Longrightarrow>
                history_front r f < history_front r g"
      by auto
    have bf: "evictable_below_K ?K w f" using f(2) by (simp add: n(1))
    have "first_access_at w f < first_access_at w g" if "evictable_below_K ?K w g" "g \<noteq> f" for g
    proof -
      have "history_front r f < history_front r g"
        using m [of g] that by (simp add: n(1))
      then show ?thesis
        using n(3) [OF bf] n(3) [OF that(1)] by (simp add: of_nat_less_64)
    qed
    with True f(1) bf show ?thesis by auto
  next
    case nb: False
    then have nb': "\<not> (\<exists>f. below_K_evictable r f)" by (simp add: n(1))
    show ?thesis
    proof (cases "\<exists>f. evictable_at_above_K ?K w f")
      case True
      then have "\<exists>f. at_above_K_evictable r f" by (simp add: n(2))
      with eo nb' obtain f where f: "fst (Evict r) = Returns (Some f)" "at_above_K_evictable r f"
        and m: "\<And>g. at_above_K_evictable r g \<Longrightarrow> history_front r f \<le> history_front r g"
        by auto
      have af: "evictable_at_above_K ?K w f" using f(2) by (simp add: n(2))
      have "kth_recent_access_at ?K w f < kth_recent_access_at ?K w g"
        if "evictable_at_above_K ?K w g" "g \<noteq> f" for g
      proof -
        have "history_front r f \<le> history_front r g"
          using m [of g] that by (simp add: n(2))
        then have "kth_recent_access_at ?K w f \<le> kth_recent_access_at ?K w g"
          using n(4) [OF af] n(4) [OF that(1)] by (simp add: of_nat_le_64)
        moreover have "kth_recent_access_at ?K w f \<noteq> kth_recent_access_at ?K w g"
          using n(4) [OF af] n(4) [OF that(1)] dj [OF that(2)] by auto
        ultimately show ?thesis by simp
      qed
      with nb True f(1) af show ?thesis by auto
    next
      case na: False
      then have "\<not> (\<exists>f. at_above_K_evictable r f)" by (simp add: n(2))
      with eo nb' have "fst (Evict r) = Returns None" by simp
      with nb na show ?thesis by simp
    qed
  qed
qed

text \<open>
  C2: take any sequence of completed calls from the constructor, with the accesses noted
  as they were made. Whenever Evict is called after it: if some evictable frame has
  fewer than K accesses, Evict returns the one of them whose first access is earliest;
  otherwise, if some evictable frame has K accesses or more, Evict returns the one of
  them whose K-th most recent access is earliest; otherwise Evict returns false. (The
  sequence is shorter than 2^64 calls, so the 64-bit clock has not wrapped.)
\<close>

theorem Evict_order:
  assumes "observe_run (LRUKReplacer n k, nothing_observed) ops = Some (r, w)"
    and "length ops < 2 ^ 64"
  shows "(if \<exists>f. evictable_below_K (unat k) w f then
            \<exists>f. fst (Evict r) = Returns (Some f) \<and> evictable_below_K (unat k) w f \<and>
                (\<forall>g. evictable_below_K (unat k) w g \<and> g \<noteq> f \<longrightarrow>
                     first_access_at w f < first_access_at w g)
          else if \<exists>f. evictable_at_above_K (unat k) w f then
            \<exists>f. fst (Evict r) = Returns (Some f) \<and> evictable_at_above_K (unat k) w f \<and>
                (\<forall>g. evictable_at_above_K (unat k) w g \<and> g \<noteq> f \<longrightarrow>
                     kth_recent_access_at (unat k) w f < kth_recent_access_at (unat k) w g)
          else fst (Evict r) = Returns None)"
proof -
  have "unat (current_timestamp (LRUKReplacer n k)) + length ops < 2 ^ 64"
    using assms(2) by (simp add: LRUKReplacer_def)
  from observe_run_inv [OF init_inv agrees_init this assms(1)]
  have inv: "replacer_inv r" and ag: "agrees r w" and e: "lru_k r = k"
    by (simp_all add: LRUKReplacer_def)
  show ?thesis using Evict_order_observed [OF inv ag] unfolding e .
qed

lemmas observe_eval = saw_access_def saw_leave_def saw_flag_def nothing_observed_def

lemma lru_k_example_run:
  "\<exists>r w. observe_run (LRUKReplacer 3 2, nothing_observed)
           [RecordAccessOp 1, RecordAccessOp 2, RecordAccessOp 2, RecordAccessOp 1, RecordAccessOp 1]
           = Some (r, w) \<and>
         access_log w 1 = [1, 4, 5] \<and> access_log w 2 = [2, 3] \<and>
         (\<forall>f. f \<noteq> 1 \<and> f \<noteq> 2 \<longrightarrow> access_log w f = []) \<and> may_evict w 1 \<and> may_evict w 2"
  by (simp add: replacer_eval observe_eval)

theorem Evict_order_witness:
  "\<exists>r w. observe_run (LRUKReplacer 3 2, nothing_observed)
           [RecordAccessOp 1, RecordAccessOp 2, RecordAccessOp 2, RecordAccessOp 1, RecordAccessOp 1]
           = Some (r, w) \<and>
         access_log w 1 = [1, 4, 5] \<and> access_log w 2 = [2, 3] \<and>
         evictable_at_above_K 2 w 1 \<and> evictable_at_above_K 2 w 2 \<and>
         kth_recent_access_at 2 w 1 = 4 \<and> kth_recent_access_at 2 w 2 = 2 \<and>
         fst (Evict r) = Returns (Some 2)"
proof -
  let ?ops = "[RecordAccessOp 1, RecordAccessOp 2, RecordAccessOp 2, RecordAccessOp 1,
               RecordAccessOp 1]"
  from lru_k_example_run obtain r w where
    run: "observe_run (LRUKReplacer 3 2, nothing_observed) ?ops = Some (r, w)"
    and l1: "access_log w 1 = [1, 4, 5]" and l2: "access_log w 2 = [2, 3]"
    and l0: "\<And>f. f \<noteq> 1 \<Longrightarrow> f \<noteq> 2 \<Longrightarrow> access_log w f = []"
    and e1: "may_evict w 1" and e2: "may_evict w 2"
    by blast
  have len: "length ?ops < (2::nat) ^ 64" by simp
  have k: "unat (2 :: size_t) = 2" by simp
  have a1: "evictable_at_above_K 2 w 1" and a2: "evictable_at_above_K 2 w 2"
    using l1 l2 e1 e2 by (simp_all add: evictable_at_above_K_def access_count_def)
  have k1: "kth_recent_access_at 2 w 1 = 4" and k2: "kth_recent_access_at 2 w 2 = 2"
    using l1 l2 by (simp_all add: kth_recent_access_at_def access_count_def)
  have only: "f = 1 \<or> f = 2" if "0 < access_count w f" for f
    using that l0 [of f] by (auto simp: access_count_def)
  have nb: "\<not> (\<exists>f. evictable_below_K 2 w f)"
  proof
    assume "\<exists>f. evictable_below_K 2 w f"
    then obtain f where b: "0 < access_count w f" "access_count w f < 2"
      by (auto simp: evictable_below_K_def)
    from only [OF b(1)] b(2) l1 l2 show False by (auto simp: access_count_def)
  qed
  have ex: "\<exists>f. evictable_at_above_K 2 w f" using a1 by blast
  have "\<exists>f. fst (Evict r) = Returns (Some f) \<and> evictable_at_above_K 2 w f \<and>
          (\<forall>g. evictable_at_above_K 2 w g \<and> g \<noteq> f \<longrightarrow>
               kth_recent_access_at 2 w f < kth_recent_access_at 2 w g)"
    using Evict_order [OF run len] nb ex unfolding k by simp
  then obtain f where f: "fst (Evict r) = Returns (Some f)" "evictable_at_above_K 2 w f"
    and m: "\<And>g. evictable_at_above_K 2 w g \<Longrightarrow> g \<noteq> f \<Longrightarrow>
              kth_recent_access_at 2 w f < kth_recent_access_at 2 w g"
    by blast
  from f(2) only have "f = 1 \<or> f = 2" by (auto simp: evictable_at_above_K_def)
  moreover have "f \<noteq> 1" using m [OF a2] k1 k2 by auto
  ultimately have "f = 2" by simp
  with f(1) have ev: "fst (Evict r) = Returns (Some 2)" by simp
  show ?thesis
    by (intro exI [of _ r] exI [of _ w] conjI run l1 l2 a1 a2 k1 k2 ev)
qed

lemma inv_queues_by_count: "inv_queues r \<Longrightarrow> queues_by_count r"
  unfolding inv_queues_def queues_by_count_def by auto

text \<open>
  C6: in every state that a sequence of completed calls leads to, and in the state after
  one more completed call, each frame is in the below-K queue exactly when its count is
  positive and below K, in the at/above-K queue exactly when its count is positive and
  at least K, and never in both. A frame of the at/above-K queue that is still tracked
  after the call is still there, and none moves back to the below-K queue; a frame moves
  from the below-K to the at/above-K queue only by its own access, the one that makes
  its count K, and that access does move it.
\<close>

theorem queue_membership:
  assumes "run (LRUKReplacer n k) ops = Some r" and "step r x = Some r'"
    and "Suc (length ops) < 2 ^ 64"
  shows "queues_by_count r \<and> queues_by_count r' \<and>
         (\<forall>g. (in_at_above_K r g \<and> tracked r' g \<longrightarrow> in_at_above_K r' g) \<and>
              (in_at_above_K r g \<longrightarrow> \<not> in_below_K r' g) \<and>
              (in_below_K r g \<and> in_at_above_K r' g \<longrightarrow>
                 x = RecordAccessOp g \<and> recorded_cnt r' g = lru_k r') \<and>
              (in_below_K r g \<and> recorded_cnt r' g = lru_k r' \<longrightarrow> in_at_above_K r' g))"
proof -
  have len: "length ops < 2 ^ 64" using assms(3) by simp
  note ri = reachable_inv [OF assms(1) len]
  then have inv: "replacer_inv r" by simp
  have "unat (current_timestamp r) < 2 ^ 64 - 1" using ri assms(3) by simp
  moreover have "unat (- 1 :: size_t) = 2 ^ 64 - 1"
    by (simp add: unsigned_minus_1_eq_mask mask_eq_exp_minus_1)
  ultimately have ts: "current_timestamp r \<noteq> - 1" by auto
  note e = step_effect [OF inv ts assms(2)]
  then have inv': "replacer_inv r'" and k': "lru_k r' = lru_k r" by simp_all
  have q: "queues_by_count r" and q': "queues_by_count r'"
    using inv inv' by (simp_all add: replacer_inv_def inv_queues_by_count)
  have m: "\<And>g. in_below_K r g = (tracked r g \<and> recorded_cnt r g < lru_k r)"
      "\<And>g. in_at_above_K r g = (tracked r g \<and> lru_k r \<le> recorded_cnt r g)"
    and m': "\<And>g. in_below_K r' g = (tracked r' g \<and> recorded_cnt r' g < lru_k r)"
      "\<And>g. in_at_above_K r' g = (tracked r' g \<and> lru_k r \<le> recorded_cnt r' g)"
    using q q' k' by (simp_all add: queues_by_count_def)
  have cnt: "recorded_cnt r' g = recorded_cnt r g \<or> recorded_cnt r' g = 0 \<or>
              (x = RecordAccessOp g \<and> recorded_cnt r' g = recorded_cnt r g + 1 \<and>
               unat (recorded_cnt r' g) = Suc (unat (recorded_cnt r g)))" for g
    using e by blast
  have t: "(in_at_above_K r g \<and> tracked r' g \<longrightarrow> in_at_above_K r' g) \<and>
      (in_at_above_K r g \<longrightarrow> \<not> in_below_K r' g) \<and>
      (in_below_K r g \<and> in_at_above_K r' g \<longrightarrow>
         x = RecordAccessOp g \<and> recorded_cnt r' g = lru_k r') \<and>
      (in_below_K r g \<and> recorded_cnt r' g = lru_k r' \<longrightarrow> in_at_above_K r' g)" for g
    using cnt [of g] unfolding m m' k' tracked_def
    by (auto simp: word_less_nat_alt word_le_nat_alt word_unat_eq_iff)
  show ?thesis using q q' t by blast
qed


lemma three_run:
  "run (LRUKReplacer 3 2) [RecordAccessOp 1, RecordAccessOp 2, RecordAccessOp 3]
     = Some (accesses (LRUKReplacer 3 2) [1, 2, 3])"
  by (simp add: accesses_def replacer_eval completed_def)

lemma three_step:
  "step (accesses (LRUKReplacer 3 2) [1, 2, 3]) (RecordAccessOp 1) = Some scenario"
  by (simp add: accesses_def scenario_def replacer_eval completed_def)

lemma in_below_K_untrack [simp]:
  "in_below_K (untrack f r) g = (g \<noteq> f \<and> in_below_K r g)"
  by (auto simp: in_below_K_def)

lemma in_at_above_K_untrack [simp]:
  "in_at_above_K (untrack f r) g = (g \<noteq> f \<and> in_at_above_K r g)"
  by (force simp: in_at_above_K_def)

text \<open>
  C8, amended: for a frame id not greater than the capacity, in every state that a
  sequence of completed calls leads to, Remove of a frame without recorded accesses
  returns and changes nothing; Remove of a tracked frame that is not evictable throws
  and changes nothing; Remove of a tracked evictable frame returns with the history and
  the count of the frame cleared, the frame gone from the queue that held it, the
  evictable count one less, and nothing else changed.
\<close>

theorem Remove_semantics:
  assumes "run (LRUKReplacer n k) ops = Some r" and "length ops < 2 ^ 64"
    and "frame_id \<le> uint n"
  shows "(\<not> tracked r frame_id \<longrightarrow> Remove r frame_id = (Returns (), r)) \<and>
         (tracked r frame_id \<and> \<not> evictable r frame_id \<longrightarrow> Remove r frame_id = (Throws, r)) \<and>
         (tracked r frame_id \<and> evictable r frame_id \<longrightarrow>
            (\<exists>r'. Remove r frame_id = (Returns (), r') \<and>
                  hist r' frame_id = [] \<and> recorded_cnt r' frame_id = 0 \<and>
                  (in_below_K r frame_id \<or> in_at_above_K r frame_id) \<and>
                  \<not> in_below_K r' frame_id \<and> \<not> in_at_above_K r' frame_id \<and>
                  curr_size r \<noteq> 0 \<and> curr_size r' = curr_size r - 1 \<and>
                  max_size r' = max_size r \<and> evictable r' = evictable r \<and>
                  (\<forall>g. g \<noteq> frame_id \<longrightarrow>
                       hist r' g = hist r g \<and> recorded_cnt r' g = recorded_cnt r g \<and>
                       in_below_K r' g = in_below_K r g \<and>
                       in_at_above_K r' g = in_at_above_K r g)))"
proof -
  note ri = reachable_inv [OF assms(1,2)]
  then have nl: "\<not> latch r" and q: "inv_queues r" and s: "inv_sizes r"
    and rs: "replacer_size r = n"
    by (simp_all add: replacer_inv_def)
  have inr: "\<not> uint (replacer_size r) < frame_id" using assms(3) rs by simp
  note res = Remove_result [OF nl q, of frame_id]
  have a: "\<not> tracked r frame_id \<longrightarrow> Remove r frame_id = (Returns (), r)"
    using res inr by (simp add: tracked_def)
  have b: "tracked r frame_id \<and> \<not> evictable r frame_id \<longrightarrow> Remove r frame_id = (Throws, r)"
    using res inr by (simp add: tracked_def)
  have c: "tracked r frame_id \<and> evictable r frame_id \<longrightarrow>
            (\<exists>r'. Remove r frame_id = (Returns (), r') \<and>
                  hist r' frame_id = [] \<and> recorded_cnt r' frame_id = 0 \<and>
                  (in_below_K r frame_id \<or> in_at_above_K r frame_id) \<and>
                  \<not> in_below_K r' frame_id \<and> \<not> in_at_above_K r' frame_id \<and>
                  curr_size r \<noteq> 0 \<and> curr_size r' = curr_size r - 1 \<and>
                  max_size r' = max_size r \<and> evictable r' = evictable r \<and>
                  (\<forall>g. g \<noteq> frame_id \<longrightarrow>
                       hist r' g = hist r g \<and> recorded_cnt r' g = recorded_cnt r g \<and>
                       in_below_K r' g = in_below_K r g \<and>
                       in_at_above_K r' g = in_at_above_K r g))"
  proof (intro impI, elim conjE)
    assume te: "tracked r frame_id" "evictable r frame_id"
    then have r': "Remove r frame_id = (Returns (), untrack frame_id r)"
      using res inr by (simp add: tracked_def)
    have fin: "finite {g. tracked r g \<and> evictable r g}" using s by (simp add: inv_sizes_def)
    then have "0 < card {g. tracked r g \<and> evictable r g}" using te by (auto simp: card_gt_0_iff)
    moreover have "unat (curr_size r) = card {g. tracked r g \<and> evictable r g}"
      using s by (simp add: inv_sizes_def)
    ultimately have nz: "curr_size r \<noteq> 0" by auto
    have was: "in_below_K r frame_id \<or> in_at_above_K r frame_id"
      using q te by (auto simp: inv_queues_def)
    show "\<exists>r'. Remove r frame_id = (Returns (), r') \<and>
                  hist r' frame_id = [] \<and> recorded_cnt r' frame_id = 0 \<and>
                  (in_below_K r frame_id \<or> in_at_above_K r frame_id) \<and>
                  \<not> in_below_K r' frame_id \<and> \<not> in_at_above_K r' frame_id \<and>
                  curr_size r \<noteq> 0 \<and> curr_size r' = curr_size r - 1 \<and>
                  max_size r' = max_size r \<and> evictable r' = evictable r \<and>
                  (\<forall>g. g \<noteq> frame_id \<longrightarrow>
                       hist r' g = hist r g \<and> recorded_cnt r' g = recorded_cnt r g \<and>
                       in_below_K r' g = in_below_K r g \<and>
                       in_at_above_K r' g = in_at_above_K r g)"
      using r' nz was
      by (intro exI [of _ "untrack frame_id r"]) simp
  qed
  show ?thesis by (intro conjI a b c)
qed

theorem queue_membership_witness:
  "run (LRUKReplacer 3 2) [RecordAccessOp 1, RecordAccessOp 2, RecordAccessOp 3]
     = Some (accesses (LRUKReplacer 3 2) [1, 2, 3]) \<and>
   step (accesses (LRUKReplacer 3 2) [1, 2, 3]) (RecordAccessOp 1) = Some scenario \<and>
   queues_by_count (accesses (LRUKReplacer 3 2) [1, 2, 3]) \<and> queues_by_count scenario \<and>
   in_below_K (accesses (LRUKReplacer 3 2) [1, 2, 3]) 1 \<and>
   in_at_above_K scenario 1 \<and> recorded_cnt scenario 1 = lru_k scenario"
proof -
  have len: "Suc (length [RecordAccessOp 1, RecordAccessOp 2, RecordAccessOp 3]) < (2::nat) ^ 64"
    by simp
  have b: "in_below_K (accesses (LRUKReplacer 3 2) [1, 2, 3]) 1"
    by (simp add: in_below_K_def accesses_def replacer_eval)
  have c: "recorded_cnt scenario 1 = lru_k scenario"
    by (simp add: scenario_state)
  note qm = queue_membership [OF three_run three_step len]
  have q1: "queues_by_count (accesses (LRUKReplacer 3 2) [1, 2, 3])"
    using qm by (rule conjunct1)
  have q2: "queues_by_count scenario"
    using qm by (rule conjunct1 [OF conjunct2])
  have "in_below_K (accesses (LRUKReplacer 3 2) [1, 2, 3]) 1 \<and>
        recorded_cnt scenario 1 = lru_k scenario \<longrightarrow> in_at_above_K scenario 1"
    using qm
    apply (elim conjE)
    apply (erule allE [where x = 1])
    apply (elim conjE)
    apply assumption
    done
  with b c have a: "in_at_above_K scenario 1" by simp
  show ?thesis
    by (intro conjI three_run three_step q1 q2 a b c)
qed



lemma pinned_run:
  "run (LRUKReplacer 3 2) [RecordAccessOp 1, SetEvictableOp 1 False] = Some pinned_example"
  by (simp add: pinned_example_def accesses_def replacer_eval completed_def)

lemma pinned_state:
  "recorded_cnt pinned_example 1 = 1 \<and> \<not> evictable pinned_example 1 \<and>
   curr_size pinned_example = 0 \<and> max_size pinned_example = 2"
  by (simp add: pinned_example_def accesses_def replacer_eval)

text \<open>
  C8 as stated fails: frame 5 has no recorded access in a fresh replacer for 3 frames,
  and Remove(5) throws instead of returning.
\<close>

theorem Remove_untracked_out_of_range_throws:
  "recorded_cnt (LRUKReplacer 3 2) 5 = 0 \<and> fst (Remove (LRUKReplacer 3 2) 5) = Throws"
  by (simp add: replacer_eval)

theorem Remove_semantics_witness:
  "run (LRUKReplacer 3 2) [RecordAccessOp 1, RecordAccessOp 2, RecordAccessOp 3, RecordAccessOp 1]
     = Some scenario \<and>
   \<not> tracked scenario 0 \<and> Remove scenario 0 = (Returns (), scenario) \<and>
   tracked scenario 2 \<and> evictable scenario 2 \<and>
   (\<exists>r'. Remove scenario 2 = (Returns (), r') \<and> hist r' 2 = [] \<and> recorded_cnt r' 2 = 0 \<and>
         \<not> in_below_K r' 2 \<and> \<not> in_at_above_K r' 2 \<and> curr_size r' = curr_size scenario - 1) \<and>
   run (LRUKReplacer 3 2) [RecordAccessOp 1, SetEvictableOp 1 False] = Some pinned_example \<and>
   tracked pinned_example 1 \<and> \<not> evictable pinned_example 1 \<and>
   Remove pinned_example 1 = (Throws, pinned_example)"
proof -
  have len: "length [RecordAccessOp 1, RecordAccessOp 2, RecordAccessOp 3, RecordAccessOp 1]
      < (2::nat) ^ 64"
    and len2: "length [RecordAccessOp 1, SetEvictableOp 1 False] < (2::nat) ^ 64"
    by simp_all
  have r0: "(0::int) \<le> uint (3 :: size_t)" and r1: "(1::int) \<le> uint (3 :: size_t)"
    and r2: "(2::int) \<le> uint (3 :: size_t)"
    by simp_all
  have t0: "\<not> tracked scenario 0" and t2: "tracked scenario 2" and e2: "evictable scenario 2"
    by (simp_all add: tracked_def scenario_state)
  have p1: "tracked pinned_example 1" and p2: "\<not> evictable pinned_example 1"
    by (simp_all add: tracked_def pinned_state)
  have a: "Remove scenario 0 = (Returns (), scenario)"
    using Remove_semantics [OF scenario_run len r0] t0 by simp
  have b: "\<exists>r'. Remove scenario 2 = (Returns (), r') \<and> hist r' 2 = [] \<and> recorded_cnt r' 2 = 0 \<and>
         \<not> in_below_K r' 2 \<and> \<not> in_at_above_K r' 2 \<and> curr_size r' = curr_size scenario - 1"
    using Remove_semantics [OF scenario_run len r2] t2 e2 by auto
  have c: "Remove pinned_example 1 = (Throws, pinned_example)"
    using Remove_semantics [OF pinned_run len2 r1] p1 p2 by simp
  show ?thesis
    by (intro conjI scenario_run pinned_run t0 t2 e2 p1 p2 a b c)
qed

section \<open>The directory of the hash table\<close>

lemma IndexOf_mod: "IndexOf hash t key = hash key mod 2 ^ global_depth t"
proof -
  have "push_bit (global_depth t) (1::nat) - 1 = mask (global_depth t)"
    by (simp add: mask_eq_exp_minus_1 push_bit_of_1)
  then have "IndexOf hash t key = take_bit (global_depth t) (hash key)"
    by (simp add: IndexOf_def take_bit_eq_mask)
  then show ?thesis by (simp add: take_bit_eq_mod)
qed

lemma IndexOf_less: "IndexOf hash t key < 2 ^ global_depth t"
  by (simp add: IndexOf_mod)

lemma dir_inv_valid: "dir_inv t \<Longrightarrow> valid_slot t (IndexOf hash t key)"
  by (simp add: dir_inv_def valid_slot_def IndexOf_less)

lemma Bucket_Insert_depth [simp]:
  "b_depth (snd (Bucket_Insert b key value)) = b_depth b"
  "b_size (snd (Bucket_Insert b key value)) = b_size b"
  by (simp_all add: Bucket_Insert_def)

lemma fold_Bucket_Insert_depth [simp]:
  "b_depth (foldl (\<lambda>n item. snd (Bucket_Insert n (fst item) (snd item))) n items) = b_depth n"
  "b_size (foldl (\<lambda>n item. snd (Bucket_Insert n (fst item) (snd item))) n items) = b_size n"
  by (induction items arbitrary: n) simp_all

lemma split_fields [simp]:
  "global_depth (split_bucket hash index b t) = global_depth t"
  "bucket_size (split_bucket hash index b t) = bucket_size t"
  "length (dir (split_bucket hash index b t)) = length (dir t)"
  "length (heap (split_bucket hash index b t)) = Suc (length (heap t))"
  by (simp_all add: split_bucket_def Let_def)

lemma split_dir_nth:
  "i < length (dir t) \<Longrightarrow>
   dir (split_bucket hash index b t) ! i =
     (if dir t ! i = b \<and> i AND push_bit (b_depth (heap t ! b)) 1 \<noteq> 0
      then length (heap t) else dir t ! i)"
  by (simp add: split_bucket_def Let_def nth_enumerate_eq)

lemma split_heap_nth:
  "b < length (heap t) \<Longrightarrow> p \<le> length (heap t) \<Longrightarrow>
   b_depth (heap (split_bucket hash index b t) ! p) =
     (if p = b \<or> p = length (heap t) then Suc (b_depth (heap t ! b)) else b_depth (heap t ! p))"
  by (auto simp: split_bucket_def Let_def nth_append Bucket_def)

lemma split_dir_inv:
  assumes "dir_inv t" "b < length (heap t)" "b_depth (heap t ! b) < global_depth t"
  shows "dir_inv (split_bucket hash index b t)"
  unfolding dir_inv_def
proof (intro conjI allI impI)
  show "length (dir (split_bucket hash index b t)) = 2 ^ global_depth (split_bucket hash index b t)"
    using assms by (simp add: dir_inv_def)
next
  fix i assume "i < length (dir (split_bucket hash index b t))"
  then have i: "i < length (dir t)" by simp
  then have v: "dir t ! i < length (heap t)" "b_depth (heap t ! (dir t ! i)) \<le> global_depth t"
    using assms by (simp_all add: dir_inv_def)
  show "dir (split_bucket hash index b t) ! i < length (heap (split_bucket hash index b t))"
    using i v by (simp add: split_dir_nth)
  have "dir (split_bucket hash index b t) ! i \<le> length (heap t)"
    using i v by (simp add: split_dir_nth)
  then show "b_depth (heap (split_bucket hash index b t) ! (dir (split_bucket hash index b t) ! i))
      \<le> global_depth (split_bucket hash index b t)"
    using assms i v by (simp add: split_heap_nth split_dir_nth)
qed

lemma grow_dir_inv: "dir_inv t \<Longrightarrow> dir_inv (grow_directory t)"
  by (auto simp: dir_inv_def grow_directory_def nth_append le_SucI)

lemma grow_fields [simp]:
  "global_depth (grow_directory t) = Suc (global_depth t)"
  "heap (grow_directory t) = heap t"
  "bucket_size (grow_directory t) = bucket_size t"
  by (simp_all add: grow_directory_def)


lemma Insert_iteration_cases:
  assumes "dir_inv t" and index_def: "index = IndexOf hash t key" and b_def: "b = dir t ! index"
  shows "(fst (Bucket_Insert (heap t ! b) key value) \<and>
            Insert_iteration hash t key value =
              Done (Returns (), t\<lparr>heap := (heap t)[b := snd (Bucket_Insert (heap t ! b) key value)]\<rparr>)) \<or>
         (\<not> fst (Bucket_Insert (heap t ! b) key value) \<and>
            b_depth (heap t ! b) = global_depth t \<and> kMaxGlobalDepth \<le> global_depth t \<and>
            Insert_iteration hash t key value = Done (Throws, t)) \<or>
         (\<not> fst (Bucket_Insert (heap t ! b) key value) \<and>
            b_depth (heap t ! b) = global_depth t \<and> global_depth t < kMaxGlobalDepth \<and>
            Insert_iteration hash t key value = Again (split_bucket hash index b (grow_directory t))) \<or>
         (\<not> fst (Bucket_Insert (heap t ! b) key value) \<and>
            b_depth (heap t ! b) < global_depth t \<and>
            Insert_iteration hash t key value = Again (split_bucket hash index b t))"
proof -
  have v: "valid_slot t index" using assms(1) by (simp add: index_def dir_inv_valid)
  then have le: "b_depth (heap t ! b) \<le> global_depth t"
    using assms(1) by (simp add: dir_inv_def valid_slot_def b_def)
  obtain ok bucket where bi: "Bucket_Insert (heap t ! b) key value = (ok, bucket)"
    by (cases "Bucket_Insert (heap t ! b) key value")
  have it: "Insert_iteration hash t key value =
     (if ok then Done (Returns (), t\<lparr>heap := (heap t)[b := bucket]\<rparr>)
      else if b_depth (heap t ! b) = global_depth t then
             (if global_depth t \<ge> kMaxGlobalDepth then Done (Throws, t)
              else Again (split_bucket hash index b (grow_directory t)))
           else Again (split_bucket hash index b t))"
    using v bi unfolding Insert_iteration_def Let_def index_def [symmetric] b_def [symmetric]
    by simp
  show ?thesis
  proof (cases ok)
    case True
    with it bi show ?thesis by simp
  next
    case False
    show ?thesis
    proof (cases "b_depth (heap t ! b) = global_depth t")
      case eq: True
      show ?thesis
      proof (cases "kMaxGlobalDepth \<le> global_depth t")
        case True
        with it bi False eq show ?thesis by simp
      next
        case nf: False
        then have "global_depth t < kMaxGlobalDepth" by simp
        with it bi False eq nf show ?thesis by simp
      qed
    next
      case ne: False
      with le have "b_depth (heap t ! b) < global_depth t" by simp
      with it bi False ne show ?thesis by simp
    qed
  qed
qed

lemma heap_update_dir_inv:
  assumes "dir_inv t" "b_depth bucket = b_depth (heap t ! b)"
  shows "dir_inv (t\<lparr>heap := (heap t)[b := bucket]\<rparr>)"
  unfolding dir_inv_def
proof (intro conjI allI impI)
  show "length (dir (t\<lparr>heap := (heap t)[b := bucket]\<rparr>)) =
      2 ^ global_depth (t\<lparr>heap := (heap t)[b := bucket]\<rparr>)"
    using assms by (simp add: dir_inv_def)
next
  fix i assume "i < length (dir (t\<lparr>heap := (heap t)[b := bucket]\<rparr>))"
  then have "dir t ! i < length (heap t)" "b_depth (heap t ! (dir t ! i)) \<le> global_depth t"
    using assms by (simp_all add: dir_inv_def)
  then show "dir (t\<lparr>heap := (heap t)[b := bucket]\<rparr>) ! i
        < length (heap (t\<lparr>heap := (heap t)[b := bucket]\<rparr>))"
    and "b_depth (heap (t\<lparr>heap := (heap t)[b := bucket]\<rparr>) !
            (dir (t\<lparr>heap := (heap t)[b := bucket]\<rparr>) ! i))
        \<le> global_depth (t\<lparr>heap := (heap t)[b := bucket]\<rparr>)"
    using assms(2) by (cases "dir t ! i = b", simp, simp)+
qed

lemma Insert_iteration_Again_inv:
  assumes "dir_inv t" "Insert_iteration hash t key value = Again t'"
  shows "dir_inv t'"
proof -
  let ?i = "IndexOf hash t key"
  let ?b = "dir t ! ?i"
  have v: "?b < length (heap t)"
    using dir_inv_valid [OF assms(1), of hash key] by (simp add: valid_slot_def)
  from Insert_iteration_cases [OF assms(1) refl refl, of hash key "value"] assms(2)
  consider "b_depth (heap t ! ?b) = global_depth t" "t' = split_bucket hash ?i ?b (grow_directory t)"
    | "b_depth (heap t ! ?b) < global_depth t" "t' = split_bucket hash ?i ?b t"
    by auto
  then show ?thesis
  proof cases
    case 1
    then show ?thesis using assms(1) v by (simp add: split_dir_inv grow_dir_inv)
  next
    case 2
    then show ?thesis using assms(1) v by (simp add: split_dir_inv)
  qed
qed

lemma Insert_iteration_Done_inv:
  assumes "dir_inv t" "Insert_iteration hash t key value = Done (res, t')"
  shows "dir_inv t' \<and> res \<noteq> Undefined \<and> res \<noteq> Deadlocks"
  using Insert_iteration_cases [OF assms(1) refl refl, of hash key "value"] assms
  by (auto simp: heap_update_dir_inv)

lemma Insert_loop_inv_aux:
  assumes "Insert_loop hash t key value = Some r"
  shows "dir_inv t \<longrightarrow> dir_inv (snd r) \<and> fst r \<noteq> Undefined \<and> fst r \<noteq> Deadlocks"
  using assms
proof (induction hash t key "value" r rule: Insert_loop.raw_induct)
  case (1 loop hash t key val r)
  show ?case
  proof
    assume inv: "dir_inv t"
    show "dir_inv (snd r) \<and> fst r \<noteq> Undefined \<and> fst r \<noteq> Deadlocks"
    proof (cases "Insert_iteration hash t key val")
      case (Done result)
      with "1.hyps" have "Insert_iteration hash t key val = Done (fst r, snd r)" by simp
      from Insert_iteration_Done_inv [OF inv this] show ?thesis .
    next
      case (Again t1)
      with "1.hyps" have l: "loop hash t1 key val = Some r" by simp
      have l2: "Insert_loop hash t1 key val = Some r"
        using "1.prems" Again by (simp add: Insert_loop.simps [of hash t key val])
      have "dir_inv t1" using inv Again by (rule Insert_iteration_Again_inv)
      with "1.IH" [OF l l2] show ?thesis by simp
    qed
  qed
qed (rule assms)

lemma Insert_loop_inv:
  "Insert_loop hash t key value = Some (res, t') \<Longrightarrow> dir_inv t \<Longrightarrow>
     dir_inv t' \<and> res \<noteq> Undefined \<and> res \<noteq> Deadlocks"
  using Insert_loop_inv_aux [of hash t key "value" "(res, t')"] by simp



lemma IndexOf_split [simp]: "IndexOf hash (split_bucket hash' index b t) key = IndexOf hash t key"
  by (simp add: IndexOf_def)

lemma depth_after_split:
  assumes "dir_inv t" "index = IndexOf hash t key" "b = dir t ! index"
  shows "b_depth (heap (split_bucket hash index b t) ! (dir (split_bucket hash index b t) ! index)) =
         Suc (b_depth (heap t ! b))"
proof -
  have v: "index < length (dir t)" "b < length (heap t)"
    using dir_inv_valid [OF assms(1), of hash key] assms(2,3) by (simp_all add: valid_slot_def)
  then have "dir (split_bucket hash index b t) ! index = b \<or>
             dir (split_bucket hash index b t) ! index = length (heap t)"
    using assms(3) by (simp add: split_dir_nth)
  then show ?thesis using v by (auto simp: split_heap_nth)
qed

lemma Insert_loop_terminates:
  "dir_inv t \<Longrightarrow> \<exists>r. Insert_loop hash t key value = Some r"
proof (induction t rule: wf_induct_rule [OF wf_measures
        [of "[\<lambda>t. kMaxGlobalDepth - global_depth t, \<lambda>t. global_depth t - depth_at hash key t]"]])
  case (1 t)
  let ?i = "IndexOf hash t key"
  let ?b = "dir t ! ?i"
  from Insert_iteration_cases [OF "1.prems" refl refl, of hash key "value"]
  consider r where "Insert_iteration hash t key value = Done r"
    | "b_depth (heap t ! ?b) = global_depth t" "global_depth t < kMaxGlobalDepth"
      "Insert_iteration hash t key value = Again (split_bucket hash ?i ?b (grow_directory t))"
    | "b_depth (heap t ! ?b) < global_depth t"
      "Insert_iteration hash t key value = Again (split_bucket hash ?i ?b t)"
    by blast
  then show ?case
  proof cases
    case 1
    then show ?thesis by (simp add: Insert_loop.simps [of hash t])
  next
    case 2
    let ?t' = "split_bucket hash ?i ?b (grow_directory t)"
    have inv: "dir_inv ?t'" using "1.prems" 2(3) by (rule Insert_iteration_Again_inv)
    have "(?t', t) \<in> measures [\<lambda>t. kMaxGlobalDepth - global_depth t,
        \<lambda>t. global_depth t - depth_at hash key t]"
      using 2(2) by (simp add: diff_less_mono2)
    from "1.IH" [OF this inv] 2(3) show ?thesis by (simp add: Insert_loop.simps [of hash t])
  next
    case 3
    let ?t' = "split_bucket hash ?i ?b t"
    have inv: "dir_inv ?t'" using "1.prems" 3(2) by (rule Insert_iteration_Again_inv)
    have "depth_at hash key ?t' = Suc (b_depth (heap t ! ?b))"
      using depth_after_split [OF "1.prems" refl refl, of hash key] by (simp add: depth_at_def)
    then have "(?t', t) \<in> measures [\<lambda>t. kMaxGlobalDepth - global_depth t,
        \<lambda>t. global_depth t - depth_at hash key t]"
      using 3(1) by (simp add: depth_at_def)
    from "1.IH" [OF this inv] 3(2) show ?thesis by (simp add: Insert_loop.simps [of hash t])
  qed
qed

lemma init_dir_inv: "dir_inv (ExtendibleHashTable sz)"
  by (simp add: dir_inv_def ExtendibleHashTable_def Bucket_def)

lemma Bucket_Remove_depth [simp]: "b_depth (snd (Bucket_Remove b key)) = b_depth b"
  by (simp add: Bucket_Remove_def split: option.splits)

lemma Remove_key_dir_inv:
  assumes "dir_inv t" "Remove_key hash t key = (res, t')"
  shows "dir_inv t' \<and> (\<exists>found. res = Returns found)"
proof -
  have v: "valid_slot t (IndexOf hash t key)" using assms(1) by (rule dir_inv_valid)
  obtain found bucket where
    br: "Bucket_Remove (heap t ! (dir t ! IndexOf hash t key)) key = (found, bucket)"
    by (cases "Bucket_Remove (heap t ! (dir t ! IndexOf hash t key)) key")
  then have "b_depth bucket = b_depth (heap t ! (dir t ! IndexOf hash t key))"
    using Bucket_Remove_depth [of "heap t ! (dir t ! IndexOf hash t key)" key] by simp
  then have "dir_inv (t\<lparr>heap := (heap t)[dir t ! IndexOf hash t key := bucket]\<rparr>)"
    using assms(1) by (simp add: heap_update_dir_inv)
  then show ?thesis
    using assms(2) v br by (auto simp: Remove_key_def Let_def)
qed

lemma table_step_Insert:
  assumes "table_step hash t (InsertOp key v) = Some t'"
  shows "\<exists>res. Insert hash t key v = Some (res, t')"
proof (cases "Insert hash t key v")
  case None
  with assms show ?thesis by simp
next
  case (Some p)
  obtain res t1 where p: "p = (res, t1)" by (cases p)
  show ?thesis using assms Some p by (cases res) simp_all
qed

lemma table_step_Remove:
  assumes "table_step hash t (RemoveKeyOp key) = Some t'"
  shows "\<exists>res. Remove_key hash t key = (res, t')"
proof -
  obtain res t1 where p: "Remove_key hash t key = (res, t1)" by (cases "Remove_key hash t key")
  show ?thesis using assms p by (cases res) simp_all
qed

lemma table_step_same:
  "table_step hash t (FindOp key) = Some t' \<Longrightarrow> t' = t"
  "table_step hash t GetGlobalDepthOp = Some t' \<Longrightarrow> t' = t"
  "table_step hash t (GetLocalDepthOp i) = Some t' \<Longrightarrow> t' = t"
  "table_step hash t GetNumBucketsOp = Some t' \<Longrightarrow> t' = t"
proof -
  show "table_step hash t (FindOp key) = Some t' \<Longrightarrow> t' = t"
    by (cases "Find hash t key") simp_all
  show "table_step hash t (GetLocalDepthOp i) = Some t' \<Longrightarrow> t' = t"
    by (cases "GetLocalDepth t i") simp_all
qed simp_all

lemma table_step_dir_inv:
  assumes "dir_inv t" "table_step hash t x = Some t'"
  shows "dir_inv t'"
proof (cases x)
  case (FindOp key)
  have "table_step hash t (FindOp key) = Some t'" using assms(2) unfolding FindOp .
  then have "t' = t" by (rule table_step_same(1))
  then show ?thesis using assms(1) by simp
next
  case (InsertOp key v)
  have "table_step hash t (InsertOp key v) = Some t'" using assms(2) unfolding InsertOp .
  then have "\<exists>res. Insert hash t key v = Some (res, t')" by (rule table_step_Insert)
  then obtain res where "Insert_loop hash t key v = Some (res, t')"
    unfolding Insert_def by (elim exE)
  from Insert_loop_inv [OF this assms(1)] show ?thesis by (rule conjunct1)
next
  case (RemoveKeyOp key)
  have "table_step hash t (RemoveKeyOp key) = Some t'" using assms(2) unfolding RemoveKeyOp .
  then have "\<exists>res. Remove_key hash t key = (res, t')" by (rule table_step_Remove)
  then obtain res where "Remove_key hash t key = (res, t')" by (elim exE)
  from Remove_key_dir_inv [OF assms(1) this] show ?thesis by (rule conjunct1)
next
  case GetGlobalDepthOp
  have "table_step hash t GetGlobalDepthOp = Some t'" using assms(2) unfolding GetGlobalDepthOp .
  then have "t' = t" by (rule table_step_same(2))
  then show ?thesis using assms(1) by simp
next
  case (GetLocalDepthOp i)
  have "table_step hash t (GetLocalDepthOp i) = Some t'" using assms(2) unfolding GetLocalDepthOp .
  then have "t' = t" by (rule table_step_same(3))
  then show ?thesis using assms(1) by simp
next
  case GetNumBucketsOp
  have "table_step hash t GetNumBucketsOp = Some t'" using assms(2) unfolding GetNumBucketsOp .
  then have "t' = t" by (rule table_step_same(4))
  then show ?thesis using assms(1) by simp
qed

lemma table_run_dir_inv:
  "dir_inv t \<Longrightarrow> table_run hash t ops = Some t' \<Longrightarrow> dir_inv t'"
proof (induction ops arbitrary: t)
  case Nil
  then show ?case by simp
next
  case (Cons x xs)
  from Cons.prems(2) obtain t1 where "table_step hash t x = Some t1" "table_run hash t1 xs = Some t'"
    by (auto split: option.splits)
  then show ?case using Cons.IH Cons.prems(1) table_step_dir_inv by blast
qed

text \<open>
  C4: after construction and after every sequence of completed public operations (Find,
  Insert also when it throws, Remove, the three introspection calls) the directory has
  2 to the global depth slots, and every bucket that a slot points to has a local depth
  of at most the global depth. In such a table the loop of Insert ends for every key: the
  call returns or throws.
\<close>

theorem directory_invariant:
  assumes "table_run hash (ExtendibleHashTable sz) ops = Some t"
  shows "length (dir t) = 2 ^ global_depth t \<and>
         (\<forall>i < length (dir t). b_depth (heap t ! (dir t ! i)) \<le> global_depth t) \<and>
         (\<exists>res t'. Insert hash t key val = Some (res, t') \<and> (res = Returns () \<or> res = Throws))"
proof -
  have inv: "dir_inv t" using init_dir_inv assms by (rule table_run_dir_inv)
  from Insert_loop_terminates [OF inv, of hash key val]
  obtain res t' where r: "Insert_loop hash t key val = Some (res, t')" by force
  from Insert_loop_inv [OF r inv] have "res = Returns () \<or> res = Throws"
    by (cases res) simp_all
  with r have "\<exists>res t'. Insert hash t key val = Some (res, t') \<and> (res = Returns () \<or> res = Throws)"
    by (auto simp: Insert_def)
  with inv show ?thesis by (simp add: dir_inv_def)
qed

section \<open>Overflow of the hash table\<close>





lemma IndexOf_zero [simp]: "IndexOf (\<lambda>k. k) t 0 = 0"
  by (simp add: IndexOf_mod)








section \<open>The hash table on concrete inputs\<close>

lemma four_key_table_run:
  "table_run (\<lambda>k. k) (ExtendibleHashTable 1)
     [InsertOp 0 10, InsertOp 2 12, InsertOp 1 11, InsertOp 3 13] = Some four_key_table"
  by code_simp

text \<open>
  C1: with buckets of one entry and the identity as hash function, after the inserts of
  the keys 0, 2 and 1 the key 1 is found with its value; the insert of key 3 returns,
  no Remove is called, and in the table it leaves the key 1 is no longer found.
\<close>

theorem inserted_key_lost_by_split:
  "table_run (\<lambda>k. k) (ExtendibleHashTable 1) [InsertOp 0 10, InsertOp 2 12, InsertOp 1 11]
     = Some three_key_table \<and>
   Find (\<lambda>k. k) three_key_table 1 = Returns (Some 11) \<and>
   Insert (\<lambda>k. k) three_key_table 3 13 = Some (Returns (), four_key_table) \<and>
   Find (\<lambda>k. k) four_key_table 1 = Returns None"
  by code_simp

theorem directory_invariant_witness:
  "table_run (\<lambda>k. k) (ExtendibleHashTable 1)
     [InsertOp 0 10, InsertOp 2 12, InsertOp 1 11, InsertOp 3 13] = Some four_key_table \<and>
   length (dir four_key_table) = 2 ^ global_depth four_key_table \<and>
   b_depth (heap four_key_table ! (dir four_key_table ! 7)) \<le> global_depth four_key_table"
proof -
  have "(7::nat) < length (dir four_key_table)" by (simp add: four_key_table_def)
  with directory_invariant [OF four_key_table_run, of 0 0] four_key_table_run show ?thesis
    by simp
qed


end
